theory Spec2Isabelle
  imports Main "HOL-Library.Word" "HOL-Library.Code_Target_Nat"
begin

unbundle bit_operations_syntax

section \<open>Values of the program\<close>

text \<open>
  The repository is two TypeScript modules, \<^verbatim>\<open>native.ts\<close> (Node) and its browser
  sibling. Both are thin bindings over a cryptographic provider that the caller injects
  with \<^verbatim>\<open>nativeInit\<close> / \<^verbatim>\<open>browserInit\<close>. A JavaScript string is a sequence of
  UTF-16 code units, a \<^verbatim>\<open>Buffer\<close> a sequence of bytes.
\<close>

type_synonym byte = "8 word"
type_synonym bytes = "byte list"
type_synonym code_unit = "16 word"
type_synonym js_string = "code_unit list"

definition ascii :: "string \<Rightarrow> js_string" where
  "ascii s = map (\<lambda>c. of_nat (of_char c)) s"

text \<open>
  What a call can throw (or reject its promise with). \<open>Error m\<close> is the source's own
  \<^verbatim>\<open>throw new Error(m)\<close>; the two \<open>TypeError\<close>s are raised by the language itself: a
  property read on \<^verbatim>\<open>undefined\<close>, and a call of a member that is not a function.
  Everything the provider throws is a \<open>Provider\<close> error.
\<close>

datatype provider_error =
    InvalidIV | InvalidKeyLength | UnknownCipher | InvalidDigest | InvalidArgument
  | BadDecrypt | WrongFinalBlockLength
  | DataError | OperationError | InvalidAccessError | SyntaxError | NotSupportedError

datatype js_error =
    Error string
  | TypeError_undefined string
  | TypeError_not_a_function string
  | Provider provider_error

subsection \<open>Effects: the trace of a call\<close>

text \<open>
  A call is observed through the provider members it invokes and the strings it hands
  to the \<^verbatim>\<open>event\<close> callback, in order, and through its outcome. A thrown error ends
  the call and keeps the trace so far.
\<close>

datatype primitive =
    RandomBytes | Pbkdf2Sync | CreateCipheriv | CreateDecipheriv | CipherUpdate | CipherFinal
  | ImportKey | DeriveBits | SubtleDecrypt

datatype action = Invoke primitive | Emit js_string

type_synonym 'a run = "action list \<times> (js_error + 'a)"

definition ret :: "'a \<Rightarrow> 'a run" where
  "ret x = ([], Inr x)"

definition throw :: "js_error \<Rightarrow> 'a run" where
  "throw e = ([], Inl e)"

definition bind :: "'a run \<Rightarrow> ('a \<Rightarrow> 'b run) \<Rightarrow> 'b run" where
  "bind m f = (case m of
       (t, Inl e) \<Rightarrow> (t, Inl e)
     | (t, Inr x) \<Rightarrow> (case f x of (t', r) \<Rightarrow> (t @ t', r)))"

definition invoke :: "primitive \<Rightarrow> (js_error + 'a) \<Rightarrow> 'a run" where
  "invoke p r = ([Invoke p], r)"

definition emit :: "js_string \<Rightarrow> unit run" where
  "emit s = ([Emit s], Inr ())"

fun emitted :: "action list \<Rightarrow> js_string list" where
  "emitted [] = []"
| "emitted (Emit s # t) = s # emitted t"
| "emitted (Invoke p # t) = emitted t"

fun invoked :: "action list \<Rightarrow> primitive list" where
  "invoked [] = []"
| "invoked (Invoke p # t) = p # invoked t"
| "invoked (Emit s # t) = invoked t"

text \<open>All that a call handed to its callback, in one piece.\<close>

definition emitted_text :: "'a run \<Rightarrow> js_string" where
  "emitted_text r = concat (emitted (fst r))"

section \<open>Platform functions the source calls directly\<close>

text \<open>
  Modelled from the spec: \<^verbatim>\<open>Buffer\<close>, \<^verbatim>\<open>TextEncoder\<close> and \<^verbatim>\<open>TextDecoder\<close>, which
  the source calls and which are the platform's, not code of the repository. The spec
  fixes the textual encoding as standard base64 with padding and the text as UTF-8;
  where it leaves a detail open the platform's documented behaviour is followed (Node's
  lenient reading of base64, the replacement character and the byte order mark of the
  Encoding Standard).
\<close>

subsection \<open>Base64: \<^verbatim>\<open>Buffer.from(s, 'base64')\<close> and \<^verbatim>\<open>buf.toString('base64')\<close>\<close>

text \<open>The standard alphabet; sextet \<open>n\<close> is written as the character \<open>b64_char n\<close>.\<close>

definition b64_char :: "nat \<Rightarrow> code_unit" where
  "b64_char n =
     (if n < 26 then of_nat (65 + n)
      else if n < 52 then of_nat (71 + n)
      else if n < 62 then of_nat (n - 4)
      else if n = 62 then 43 else 47)"

definition pad_char :: code_unit where
  "pad_char = 61"

text \<open>\<^verbatim>\<open>buf.toString('base64')\<close>: three bytes per four characters, padded with \<^verbatim>\<open>=\<close>.\<close>

fun base64_encode :: "bytes \<Rightarrow> js_string" where
  "base64_encode (a # b # c # rest) =
     [b64_char (unat a div 4),
      b64_char ((unat a mod 4) * 16 + unat b div 16),
      b64_char ((unat b mod 16) * 4 + unat c div 64),
      b64_char (unat c mod 64)] @ base64_encode rest"
| "base64_encode [a, b] =
     [b64_char (unat a div 4),
      b64_char ((unat a mod 4) * 16 + unat b div 16),
      b64_char ((unat b mod 16) * 4),
      pad_char]"
| "base64_encode [a] =
     [b64_char (unat a div 4), b64_char ((unat a mod 4) * 16), pad_char, pad_char]"
| "base64_encode [] = []"

text \<open>
  \<^verbatim>\<open>Buffer.from(s, 'base64')\<close> never throws. Node reads each character of the string
  through its low byte (the code unit modulo 256, so U+0141 reads as \<^verbatim>\<open>A\<close> and U+D83D as
  \<^verbatim>\<open>=\<close>). It takes the characters of either base64 alphabet (standard or URL-safe),
  skips every other character, and stops at the first \<^verbatim>\<open>=\<close>; two sextets give one byte,
  three give two, four give three, a single left-over sextet gives none.
\<close>

definition low_byte :: "code_unit \<Rightarrow> nat" where
  "low_byte c = unat c mod 256"

definition unbase64 :: "code_unit \<Rightarrow> nat option" where
  "unbase64 c =
     (let n = low_byte c in
      if 65 \<le> n \<and> n \<le> 90 then Some (n - 65)
      else if 97 \<le> n \<and> n \<le> 122 then Some (n - 71)
      else if 48 \<le> n \<and> n \<le> 57 then Some (n + 4)
      else if n = 43 \<or> n = 45 then Some 62
      else if n = 47 \<or> n = 95 then Some 63
      else None)"

definition not_pad :: "code_unit \<Rightarrow> bool" where
  "not_pad c = (low_byte c \<noteq> 61)"

fun sextets_bytes :: "nat list \<Rightarrow> bytes" where
  "sextets_bytes (p # q # r # s # rest) =
     [of_nat (p * 4 + q div 16), of_nat ((q mod 16) * 16 + r div 4), of_nat ((r mod 4) * 64 + s)]
     @ sextets_bytes rest"
| "sextets_bytes [p, q, r] = [of_nat (p * 4 + q div 16), of_nat ((q mod 16) * 16 + r div 4)]"
| "sextets_bytes [p, q] = [of_nat (p * 4 + q div 16)]"
| "sextets_bytes [p] = []"
| "sextets_bytes [] = []"

definition base64_decode :: "js_string \<Rightarrow> bytes" where
  "base64_decode s = sextets_bytes (List.map_filter unbase64 (takeWhile not_pad s))"

text \<open>
  \<^verbatim>\<open>string_decoder\<close> for \<^verbatim>\<open>'base64'\<close>, which Node's cipher objects use for an output
  encoding: \<^verbatim>\<open>write\<close> encodes whole groups of three bytes and keeps the one or two
  bytes left over; \<^verbatim>\<open>end\<close> encodes what is left, padded.
\<close>

definition base64_write :: "bytes \<Rightarrow> bytes \<Rightarrow> js_string \<times> bytes" where
  "base64_write pending buf =
     (let avail = pending @ buf; n = length avail - length avail mod 3
      in (base64_encode (take n avail), drop n avail))"

definition base64_end :: "bytes \<Rightarrow> bytes \<Rightarrow> js_string" where
  "base64_end pending buf = base64_encode (pending @ buf)"

subsection \<open>UTF-8: \<^verbatim>\<open>Buffer.from(s, 'utf8')\<close>, \<^verbatim>\<open>TextEncoder\<close>, \<^verbatim>\<open>TextDecoder\<close>\<close>

definition is_high_surrogate :: "code_unit \<Rightarrow> bool" where
  "is_high_surrogate u = (0xD800 \<le> unat u \<and> unat u \<le> 0xDBFF)"

definition is_low_surrogate :: "code_unit \<Rightarrow> bool" where
  "is_low_surrogate u = (0xDC00 \<le> unat u \<and> unat u \<le> 0xDFFF)"

text \<open>The UTF-8 bytes of one code point.\<close>

definition utf8_bytes :: "nat \<Rightarrow> bytes" where
  "utf8_bytes cp =
     (if cp < 0x80 then [of_nat cp]
      else if cp < 0x800 then [of_nat (0xC0 + cp div 64), of_nat (0x80 + cp mod 64)]
      else if cp < 0x10000 then
        [of_nat (0xE0 + cp div 4096), of_nat (0x80 + (cp div 64) mod 64), of_nat (0x80 + cp mod 64)]
      else
        [of_nat (0xF0 + cp div 262144), of_nat (0x80 + (cp div 4096) mod 64),
         of_nat (0x80 + (cp div 64) mod 64), of_nat (0x80 + cp mod 64)])"

text \<open>
  Encoding a string as UTF-8 (\<^verbatim>\<open>Buffer.from(s, 'utf8')\<close>, \<^verbatim>\<open>TextEncoder.encode\<close>, and
  what Node does to a string argument of \<^verbatim>\<open>cipher.update(s, 'utf8')\<close> and
  \<^verbatim>\<open>pbkdf2Sync\<close>): a surrogate pair is one code point, and a surrogate without its
  partner is written as U+FFFD.
\<close>

fun utf8_encode :: "js_string \<Rightarrow> bytes" where
  "utf8_encode [] = []"
| "utf8_encode [u] =
     (if is_high_surrogate u \<or> is_low_surrogate u then utf8_bytes 0xFFFD else utf8_bytes (unat u))"
| "utf8_encode (u # l # us) =
     (if is_high_surrogate u then
        (if is_low_surrogate l then
           utf8_bytes (0x10000 + (unat u - 0xD800) * 1024 + (unat l - 0xDC00)) @ utf8_encode us
         else utf8_bytes 0xFFFD @ utf8_encode (l # us))
      else if is_low_surrogate u then utf8_bytes 0xFFFD @ utf8_encode (l # us)
      else utf8_bytes (unat u) @ utf8_encode (l # us))"

text \<open>
  Decoding UTF-8 is the decoder of the Encoding Standard, a state machine over the
  bytes: the code point so far, the continuation bytes seen and needed, and the range
  the next continuation byte must lie in. A byte that cannot continue the sequence ends
  it with U+FFFD and is read again as the start of a new one.
\<close>

datatype utf8_state = U8 (u8_cp: nat) (u8_seen: nat) (u8_needed: nat) (u8_lower: nat) (u8_upper: nat)

definition utf8_init :: utf8_state where
  "utf8_init = U8 0 0 0 0x80 0xBF"

definition code_units :: "nat \<Rightarrow> js_string" where
  "code_units cp =
     (if cp < 0x10000 then [of_nat cp]
      else [of_nat (0xD800 + (cp - 0x10000) div 1024), of_nat (0xDC00 + (cp - 0x10000) mod 1024)])"

definition utf8_start :: "byte \<Rightarrow> js_string \<times> utf8_state" where
  "utf8_start b =
     (let n = unat b in
      if n \<le> 0x7F then ([of_nat n], utf8_init)
      else if 0xC2 \<le> n \<and> n \<le> 0xDF then ([], U8 (n mod 32) 0 1 0x80 0xBF)
      else if 0xE0 \<le> n \<and> n \<le> 0xEF then
        ([], U8 (n mod 16) 0 2 (if n = 0xE0 then 0xA0 else 0x80) (if n = 0xED then 0x9F else 0xBF))
      else if 0xF0 \<le> n \<and> n \<le> 0xF4 then
        ([], U8 (n mod 8) 0 3 (if n = 0xF0 then 0x90 else 0x80) (if n = 0xF4 then 0x8F else 0xBF))
      else ([0xFFFD], utf8_init))"

definition utf8_step :: "utf8_state \<Rightarrow> byte \<Rightarrow> js_string \<times> utf8_state" where
  "utf8_step s b =
     (let n = unat b in
      if u8_needed s = 0 then utf8_start b
      else if n < u8_lower s \<or> u8_upper s < n then
        (case utf8_start b of (out, s') \<Rightarrow> (0xFFFD # out, s'))
      else
        (let cp = u8_cp s * 64 + n mod 64 in
         if u8_seen s + 1 = u8_needed s then (code_units cp, utf8_init)
         else ([], U8 cp (u8_seen s + 1) (u8_needed s) 0x80 0xBF)))"

fun utf8_run :: "utf8_state \<Rightarrow> bytes \<Rightarrow> js_string \<times> utf8_state" where
  "utf8_run s [] = ([], s)"
| "utf8_run s (b # bs) =
     (case utf8_step s b of (out, s') \<Rightarrow>
        (case utf8_run s' bs of (out', s'') \<Rightarrow> (out @ out', s'')))"

definition utf8_flush :: "utf8_state \<Rightarrow> js_string" where
  "utf8_flush s = (if u8_needed s = 0 then [] else [0xFFFD])"

definition utf8_decode :: "bytes \<Rightarrow> js_string" where
  "utf8_decode bs = (case utf8_run utf8_init bs of (out, s) \<Rightarrow> out @ utf8_flush s)"

text \<open>
  \<^verbatim>\<open>string_decoder\<close> for \<^verbatim>\<open>'utf8'\<close>, as Node implements it. The decoder keeps
  the bytes of a character that the input so far has left unfinished, and the number of
  bytes that character still misses. It judges by the upper bits of the bytes alone: a
  continuation byte is \<^verbatim>\<open>10xxxxxx\<close>, and a first byte announces a length of two
  (\<^verbatim>\<open>110xxxxx\<close>), three (\<^verbatim>\<open>1110xxxx\<close>) or four (\<^verbatim>\<open>11110xxx\<close>) bytes. So bytes that
  can start no character, such as \<^verbatim>\<open>C0\<close> or \<^verbatim>\<open>E0 80\<close>, are kept like any other
  unfinished character.
\<close>

record utf8_decoder =
  held :: bytes
  missing :: nat

definition utf8_decoder_init :: utf8_decoder where
  "utf8_decoder_init = \<lparr>held = [], missing = 0\<rparr>"

definition is_continuation :: "byte \<Rightarrow> bool" where
  "is_continuation b = (0x80 \<le> unat b \<and> unat b < 0xC0)"

definition lead_length :: "byte \<Rightarrow> nat" where
  "lead_length b =
     (let n = unat b in
      if 0xC0 \<le> n \<and> n < 0xE0 then 2
      else if 0xE0 \<le> n \<and> n < 0xF0 then 3
      else if 0xF0 \<le> n \<and> n < 0xF8 then 4
      else 0)"

text \<open>
  The search for an unfinished character at the end of the input, over the input
  reversed; \<open>k\<close> counts the bytes passed. It gives the number of bytes to keep and the
  number then missing. The search gives up (nothing is kept) at a fourth continuation
  byte, at a continuation byte that is the first byte of the input, and at a first byte
  that has all the bytes it announces, or announces none.
\<close>

fun tail_scan :: "nat \<Rightarrow> bytes \<Rightarrow> nat \<times> nat" where
  "tail_scan k [] = (0, 0)"
| "tail_scan k (b # earlier) =
     (if is_continuation b then
        (if 4 \<le> k + 1 \<or> earlier = [] then (0, 0) else tail_scan (k + 1) earlier)
      else if lead_length b \<le> k + 1 then (0, 0)
      else (k + 1, lead_length b - (k + 1)))"

definition held_back :: "bytes \<Rightarrow> nat \<times> nat" where
  "held_back buf =
     (if buf \<noteq> [] \<and> 0x80 \<le> unat (last buf) then tail_scan 0 (rev buf) else (0, 0))"

text \<open>
  \<^verbatim>\<open>write\<close>. First the character kept from the call before is finished: the bytes it
  misses are taken from the front of the input as long as they are continuation bytes;
  when none is missing any more, or a byte is found that is not a continuation byte, the
  bytes kept are decoded on their own. Then the rest of the input, less what is kept back
  at its end, is decoded. The decoding itself is that of the Encoding Standard.
\<close>

definition utf8_write :: "utf8_decoder \<Rightarrow> bytes \<Rightarrow> js_string \<times> utf8_decoder" where
  "utf8_write s buf =
     (case
        (if missing s = 0 then ([], s, buf)
         else
           (let window = take (missing s) buf;
                i = length (takeWhile is_continuation window)
            in if i < length window \<or> length window = missing s
               then (utf8_decode (held s @ take i buf), utf8_decoder_init, drop i buf)
               else ([], \<lparr>held = held s @ window, missing = missing s - length window\<rparr>, [])))
      of (prepend, s', rest) \<Rightarrow>
        if rest = [] then (prepend, s')
        else
          (case held_back rest of (k, m) \<Rightarrow>
             (prepend @ utf8_decode (take (length rest - k) rest),
              \<lparr>held = drop (length rest - k) rest, missing = m\<rparr>)))"

text \<open>\<^verbatim>\<open>end\<close> writes its input and then decodes the bytes still kept, if any.\<close>

definition utf8_end :: "utf8_decoder \<Rightarrow> bytes \<Rightarrow> js_string" where
  "utf8_end s buf =
     (case utf8_write s buf of (out, s') \<Rightarrow>
        out @ (if held s' = [] then [] else utf8_decode (held s')))"

text \<open>
  \<^verbatim>\<open>new TextDecoder().decode(buf)\<close>: UTF-8, not fatal, and \<^verbatim>\<open>ignoreBOM\<close> false, so a
  byte order mark at the start of the input is consumed and not part of the result.
\<close>

definition text_decoder_decode :: "bytes \<Rightarrow> js_string" where
  "text_decoder_decode bs =
     (if take 3 bs = [0xEF, 0xBB, 0xBF] then utf8_decode (drop 3 bs) else utf8_decode bs)"

text \<open>A string every surrogate of which is half of a pair.\<close>

fun well_formed :: "js_string \<Rightarrow> bool" where
  "well_formed [] = True"
| "well_formed [u] = (\<not> is_high_surrogate u \<and> \<not> is_low_surrogate u)"
| "well_formed (u # l # us) =
     (if is_high_surrogate u then is_low_surrogate l \<and> well_formed us
      else \<not> is_low_surrogate u \<and> well_formed (l # us))"

section \<open>The two modules\<close>

subsection \<open>The provider handles\<close>

text \<open>
  \<^verbatim>\<open>native.ts\<close> declares the provider as an object with the four members
  \<^verbatim>\<open>randomBytes\<close>, \<^verbatim>\<open>pbkdf2Sync\<close>, \<^verbatim>\<open>createCipheriv\<close> and \<^verbatim>\<open>createDecipheriv\<close>.
  \<^verbatim>\<open>nativeInit(crypto: any)\<close> stores whatever it is given, so each member may be
  missing (\<open>None\<close>), and before \<^verbatim>\<open>nativeInit\<close> the handle itself is \<^verbatim>\<open>undefined\<close>
  (\<open>None\<close>). A cipher object is its state and its two methods; \<^verbatim>\<open>update\<close> returns the
  output and the object's next state.
\<close>

datatype encoding = Utf8 | Base64

record 'c cipher_object =
  cipher_state :: 'c
  update :: "'c \<Rightarrow> js_string \<Rightarrow> encoding \<Rightarrow> encoding \<Rightarrow> js_error + (js_string \<times> 'c)"
  final :: "'c \<Rightarrow> encoding \<Rightarrow> js_error + js_string"

record 'c native_crypto =
  randomBytes :: "(nat \<Rightarrow> js_error + bytes) option"
  pbkdf2Sync :: "(js_string \<Rightarrow> bytes \<Rightarrow> nat \<Rightarrow> nat \<Rightarrow> string \<Rightarrow> js_error + bytes) option"
  createCipheriv :: "(string \<Rightarrow> bytes \<Rightarrow> bytes \<Rightarrow> js_error + 'c cipher_object) option"
  createDecipheriv :: "(string \<Rightarrow> bytes \<Rightarrow> bytes \<Rightarrow> js_error + 'c cipher_object) option"

text \<open>
  The browser module's provider is a \<^verbatim>\<open>Crypto\<close>: an object whose \<^verbatim>\<open>subtle\<close> member
  carries \<^verbatim>\<open>importKey\<close>, \<^verbatim>\<open>deriveBits\<close> and \<^verbatim>\<open>decrypt\<close>. \<open>'k\<close> is the provider's
  key handle (\<^verbatim>\<open>CryptoKey\<close>).
\<close>

record derive_params =
  dp_name :: string
  dp_salt :: bytes
  dp_iterations :: nat
  dp_hash :: string

record cipher_params =
  cp_name :: string
  cp_iv :: bytes

record 'k subtle_crypto =
  importKey :: "(string \<Rightarrow> bytes \<Rightarrow> string \<Rightarrow> bool \<Rightarrow> string list \<Rightarrow> js_error + 'k) option"
  deriveBits :: "(derive_params \<Rightarrow> 'k \<Rightarrow> nat \<Rightarrow> js_error + bytes) option"
  decrypt :: "(cipher_params \<Rightarrow> 'k \<Rightarrow> bytes \<Rightarrow> js_error + bytes) option"

record 'k browser_crypto =
  subtle :: "'k subtle_crypto option"

text \<open>
  Reading a member of the handle throws a \<open>TypeError\<close> when the handle is
  \<^verbatim>\<open>undefined\<close>; calling a member that is missing throws a \<open>TypeError\<close> too. A call
  that is made is recorded in the trace.
\<close>

definition member :: "'p option \<Rightarrow> string \<Rightarrow> ('p \<Rightarrow> 'm option) \<Rightarrow> 'm option run" where
  "member handle name sel =
     (case handle of None \<Rightarrow> throw (TypeError_undefined name) | Some p \<Rightarrow> ret (sel p))"

definition subtle_member ::
  "'k browser_crypto option \<Rightarrow> string \<Rightarrow> ('k subtle_crypto \<Rightarrow> 'm option) \<Rightarrow> 'm option run" where
  "subtle_member handle name sel =
     bind (member handle ''subtle'' subtle) (\<lambda>s.
       case s of None \<Rightarrow> throw (TypeError_undefined name) | Some sc \<Rightarrow> ret (sel sc))"

definition call :: "primitive \<Rightarrow> string \<Rightarrow> 'f option \<Rightarrow> ('f \<Rightarrow> js_error + 'a) \<Rightarrow> 'a run" where
  "call p name m app =
     (case m of None \<Rightarrow> throw (TypeError_not_a_function name) | Some f \<Rightarrow> invoke p (app f))"

subsection \<open>\<^verbatim>\<open>native.ts\<close>\<close>

text \<open>
  Each function takes the module-level handle \<^verbatim>\<open>nativeCrypto\<close> as its first argument.
  A thrown error and a rejected promise are both the outcome \<open>Inl\<close>
  (\<^verbatim>\<open>nativeGenerateIvv\<close> is the one function that is not \<^verbatim>\<open>async\<close>). The callback
  \<^verbatim>\<open>event\<close> is the caller's; it is taken to return normally.
  \<^verbatim>\<open>
  export const nativeInit = (crypto: any) => {
    nativeCrypto = crypto;
  }
  \<close>
\<close>

definition nativeInit :: "'c native_crypto option \<Rightarrow> 'c native_crypto option \<Rightarrow> 'c native_crypto option" where
  "nativeInit crypto nativeCrypto = crypto"

text \<open>
  \<^verbatim>\<open>
  export const nativeGenerateIvv = (): Promise<string> => {
    if (!nativeCrypto.randomBytes) {
      throw new Error('nativeCrypto.randomBytes is not supported');
    }
    return Promise.resolve(nativeCrypto.randomBytes(16).toString('base64'));
  }
  \<close>
\<close>

definition nativeGenerateIvv :: "'c native_crypto option \<Rightarrow> js_string run" where
  "nativeGenerateIvv nativeCrypto =
     bind (member nativeCrypto ''randomBytes'' randomBytes) (\<lambda>guard.
       case guard of
         None \<Rightarrow> throw (Error ''nativeCrypto.randomBytes is not supported'')
       | Some _ \<Rightarrow>
           bind (member nativeCrypto ''randomBytes'' randomBytes) (\<lambda>m.
           bind (call RandomBytes ''nativeCrypto.randomBytes'' m (\<lambda>f. f 16)) (\<lambda>buf.
           ret (base64_encode buf))))"

text \<open>
  \<^verbatim>\<open>
  export const nativeGenerateKey = async (password: string, ivv: string): Promise<string> => {
    if (!nativeCrypto.randomBytes) {
      throw new Error('nativeCrypto.randomBytes is not supported');
    }
    const iterations = 100000;
    const bytesize = 32;
    const decodedSalt = Buffer.from(ivv, 'base64');
    return Promise.resolve(nativeCrypto.pbkdf2Sync(password, decodedSalt, iterations,
      bytesize, 'sha256').toString('base64'));
  }
  \<close>
\<close>

definition nativeGenerateKey :: "'c native_crypto option \<Rightarrow> js_string \<Rightarrow> js_string \<Rightarrow> js_string run" where
  "nativeGenerateKey nativeCrypto password ivv =
     bind (member nativeCrypto ''randomBytes'' randomBytes) (\<lambda>guard.
       case guard of
         None \<Rightarrow> throw (Error ''nativeCrypto.randomBytes is not supported'')
       | Some _ \<Rightarrow>
           (let iterations = 100000; bytesize = 32; decodedSalt = base64_decode ivv in
            bind (member nativeCrypto ''pbkdf2Sync'' pbkdf2Sync) (\<lambda>m.
            bind (call Pbkdf2Sync ''nativeCrypto.pbkdf2Sync'' m
                    (\<lambda>f. f password decodedSalt iterations bytesize ''sha256'')) (\<lambda>buf.
            ret (base64_encode buf)))))"

text \<open>
  \<^verbatim>\<open>
  export const nativeGenerateHash = async (password: string, ivv: string): Promise<string> => {
    const key = await nativeGenerateKey(password, ivv);
    return await nativeGenerateKey(key, ivv);
  }
  \<close>
\<close>

definition nativeGenerateHash :: "'c native_crypto option \<Rightarrow> js_string \<Rightarrow> js_string \<Rightarrow> js_string run" where
  "nativeGenerateHash nativeCrypto password ivv =
     bind (nativeGenerateKey nativeCrypto password ivv) (\<lambda>key.
     nativeGenerateKey nativeCrypto key ivv)"

text \<open>
  \<^verbatim>\<open>
  export const nativeEncryptText = async (key: string, ivv: string, text: string,
      event: (cipher: string) => void): Promise<void> => {
    if (!nativeCrypto.createCipheriv) {
      throw new Error('nativeCrypto.createCipheriv is not supported');
    }
    const cipher = nativeCrypto.createCipheriv('aes-256-cbc', Buffer.from(key, 'base64'),
      Buffer.from(ivv, 'base64'));
    event(cipher.update(text, 'utf8', 'base64').toString());
    event(cipher.final('base64').toString());
    return Promise.resolve();
  }
  \<close>
\<close>

definition nativeEncryptText ::
  "'c native_crypto option \<Rightarrow> js_string \<Rightarrow> js_string \<Rightarrow> js_string \<Rightarrow> unit run" where
  "nativeEncryptText nativeCrypto key ivv text =
     bind (member nativeCrypto ''createCipheriv'' createCipheriv) (\<lambda>guard.
       case guard of
         None \<Rightarrow> throw (Error ''nativeCrypto.createCipheriv is not supported'')
       | Some _ \<Rightarrow>
           bind (member nativeCrypto ''createCipheriv'' createCipheriv) (\<lambda>m.
           bind (call CreateCipheriv ''nativeCrypto.createCipheriv'' m
                   (\<lambda>f. f ''aes-256-cbc'' (base64_decode key) (base64_decode ivv))) (\<lambda>cipher.
           bind (invoke CipherUpdate (update cipher (cipher_state cipher) text Utf8 Base64)) (\<lambda>(out, st).
           bind (emit out) (\<lambda>_.
           bind (invoke CipherFinal (final cipher st Base64)) (\<lambda>last_out.
           bind (emit last_out) (\<lambda>_.
           ret ())))))))"

text \<open>
  \<^verbatim>\<open>
  export const nativeDecryptText = async (key: string, ivv: string, text: string,
      event: (cipher: string) => void): Promise<void> => {
    if (!nativeCrypto.createCipheriv) {
      throw new Error('nativeCrypto.createCipheriv is not supported');
    }
    const cipher = nativeCrypto.createDecipheriv('aes-256-cbc', Buffer.from(key, 'base64'),
      Buffer.from(ivv, 'base64'));
    event(cipher.update(text, 'base64', 'utf8').toString());
    event(cipher.final('utf8').toString());
    return Promise.resolve();
  }
  \<close>
\<close>

definition nativeDecryptText ::
  "'c native_crypto option \<Rightarrow> js_string \<Rightarrow> js_string \<Rightarrow> js_string \<Rightarrow> unit run" where
  "nativeDecryptText nativeCrypto key ivv text =
     bind (member nativeCrypto ''createCipheriv'' createCipheriv) (\<lambda>guard.
       case guard of
         None \<Rightarrow> throw (Error ''nativeCrypto.createCipheriv is not supported'')
       | Some _ \<Rightarrow>
           bind (member nativeCrypto ''createDecipheriv'' createDecipheriv) (\<lambda>m.
           bind (call CreateDecipheriv ''nativeCrypto.createDecipheriv'' m
                   (\<lambda>f. f ''aes-256-cbc'' (base64_decode key) (base64_decode ivv))) (\<lambda>cipher.
           bind (invoke CipherUpdate (update cipher (cipher_state cipher) text Base64 Utf8)) (\<lambda>(out, st).
           bind (emit out) (\<lambda>_.
           bind (invoke CipherFinal (final cipher st Utf8)) (\<lambda>last_out.
           bind (emit last_out) (\<lambda>_.
           ret ())))))))"

subsection \<open>The browser module\<close>

definition browserInit :: "'k browser_crypto option \<Rightarrow> 'k browser_crypto option \<Rightarrow> 'k browser_crypto option" where
  "browserInit crypto browserCrypto = crypto"

text \<open>The guard \<^verbatim>\<open>!browserCrypto.subtle?.importKey\<close> of both browser functions.\<close>

definition importKey_guard :: "'k browser_crypto option \<Rightarrow> unit run" where
  "importKey_guard browserCrypto =
     bind (member browserCrypto ''subtle'' subtle) (\<lambda>s.
       case (case s of None \<Rightarrow> None | Some sc \<Rightarrow> importKey sc) of
         None \<Rightarrow> throw (Error ''browserCrypto.subtle.importKey is not supported'')
       | Some _ \<Rightarrow> ret ())"

text \<open>
  \<^verbatim>\<open>
  export const browserGenerateKey = async (password: string, ivv: string): Promise<string> => {
    if (!browserCrypto.subtle?.importKey) {
      throw new Error('browserCrypto.subtle.importKey is not supported');
    }
    const encoder = new TextEncoder();
    const iterations = 100000;
    const bytesize = 32;
    const importedKey = await browserCrypto.subtle.importKey(
      'raw', encoder.encode(password), { name: 'PBKDF2' }, false, ['deriveBits', 'deriveKey']);
    const derivedBits = await browserCrypto.subtle.deriveBits(
      { name: 'PBKDF2', salt: Buffer.from(ivv, 'base64'), iterations, hash: 'SHA-256' },
      importedKey, bytesize * 8);
    return Buffer.from(derivedBits).toString('base64');
  };
  \<close>
\<close>

definition browserGenerateKey :: "'k browser_crypto option \<Rightarrow> js_string \<Rightarrow> js_string \<Rightarrow> js_string run" where
  "browserGenerateKey browserCrypto password ivv =
     bind (importKey_guard browserCrypto) (\<lambda>_.
       (let iterations = 100000; bytesize = 32 in
        bind (subtle_member browserCrypto ''importKey'' importKey) (\<lambda>m.
        bind (call ImportKey ''browserCrypto.subtle.importKey'' m
                (\<lambda>f. f ''raw'' (utf8_encode password) ''PBKDF2'' False [''deriveBits'', ''deriveKey''])) (\<lambda>importedKey.
        bind (subtle_member browserCrypto ''deriveBits'' deriveBits) (\<lambda>m'.
        bind (call DeriveBits ''browserCrypto.subtle.deriveBits'' m'
                (\<lambda>f. f \<lparr>dp_name = ''PBKDF2'', dp_salt = base64_decode ivv,
                         dp_iterations = iterations, dp_hash = ''SHA-256''\<rparr>
                       importedKey (bytesize * 8))) (\<lambda>derivedBits.
        ret (base64_encode derivedBits)))))))"

text \<open>
  \<^verbatim>\<open>
  export const browserGenerateHash = async (password: string, ivv: string): Promise<string> => {
    const key = await browserGenerateKey(password, ivv);
    return await browserGenerateKey(key, ivv);
  }
  \<close>
\<close>

definition browserGenerateHash :: "'k browser_crypto option \<Rightarrow> js_string \<Rightarrow> js_string \<Rightarrow> js_string run" where
  "browserGenerateHash browserCrypto password ivv =
     bind (browserGenerateKey browserCrypto password ivv) (\<lambda>key.
     browserGenerateKey browserCrypto key ivv)"

text \<open>
  \<^verbatim>\<open>
  export const browserDecryptText = async (key: string, ivv: string, text: string,
      event: (cipher: string) => void): Promise<void> => {
    if (!browserCrypto.subtle?.importKey) {
      throw new Error('browserCrypto.subtle.importKey is not supported');
    }
    const importedKey = await browserCrypto.subtle.importKey(
      'raw', Buffer.from(key, 'base64'), { name: 'AES-CBC' }, false, ['decrypt']);
    const decryptedText = await browserCrypto.subtle.decrypt(
      { name: 'AES-CBC', iv: Buffer.from(ivv, 'base64'), }, importedKey,
      Buffer.from(text, 'base64'));
    event(new TextDecoder().decode(decryptedText));
    return Promise.resolve();
  }
  \<close>
\<close>

definition browserDecryptText ::
  "'k browser_crypto option \<Rightarrow> js_string \<Rightarrow> js_string \<Rightarrow> js_string \<Rightarrow> unit run" where
  "browserDecryptText browserCrypto key ivv text =
     bind (importKey_guard browserCrypto) (\<lambda>_.
        bind (subtle_member browserCrypto ''importKey'' importKey) (\<lambda>m.
        bind (call ImportKey ''browserCrypto.subtle.importKey'' m
                (\<lambda>f. f ''raw'' (base64_decode key) ''AES-CBC'' False [''decrypt''])) (\<lambda>importedKey.
        bind (subtle_member browserCrypto ''decrypt'' decrypt) (\<lambda>m'.
        bind (call SubtleDecrypt ''browserCrypto.subtle.decrypt'' m'
                (\<lambda>f. f \<lparr>cp_name = ''AES-CBC'', cp_iv = base64_decode ivv\<rparr>
                       importedKey (base64_decode text))) (\<lambda>decryptedText.
        bind (emit (text_decoder_decode decryptedText)) (\<lambda>_.
        ret ()))))))"

section \<open>The providers the modules are written for\<close>

text \<open>
  Modelled from the spec: the two primitive providers, Node's \<^verbatim>\<open>crypto\<close> module and
  the browser's Web Crypto object, which the modules are initialised with and which
  are not code of the repository. The spec names what they compute: AES-256-CBC with
  PKCS padding and the salt as initialization vector, PBKDF2 with HMAC-SHA256, a
  16-byte random salt. Where it leaves a detail open the providers' documented
  behaviour is followed (Node's \<^verbatim>\<open>crypto\<close> and \<^verbatim>\<open>string_decoder\<close>, OpenSSL's
  handling of the last block, the Web Cryptography API). The cryptographic primitives
  themselves are parameters: the AES block transformation and its inverse (key, then
  one 16-byte block), PBKDF2 with HMAC over a named hash, and the random source. What
  is proved about the modules on these providers holds for every choice of the
  parameters, under the one hypothesis \<open>block_cipher\<close> where deciphering has to undo
  enciphering.
\<close>

datatype hash_alg = SHA1 | SHA256 | SHA384 | SHA512

record primitives =
  aes_encrypt_block :: "bytes \<Rightarrow> bytes \<Rightarrow> bytes"
  aes_decrypt_block :: "bytes \<Rightarrow> bytes \<Rightarrow> bytes"
  pbkdf2_hmac :: "hash_alg \<Rightarrow> bytes \<Rightarrow> bytes \<Rightarrow> nat \<Rightarrow> nat \<Rightarrow> bytes"
  random_source :: "nat \<Rightarrow> bytes"

subsection \<open>Cipher block chaining and PKCS padding\<close>

definition xor_bytes :: "bytes \<Rightarrow> bytes \<Rightarrow> bytes" where
  "xor_bytes a b = map2 (XOR) a b"

text \<open>The complete 16-byte blocks of a byte sequence, and the bytes after them.\<close>

definition blocks :: "bytes \<Rightarrow> bytes list" where
  "blocks bs = map (\<lambda>i. take 16 (drop (16 * i) bs)) [0..<length bs div 16]"

definition remainder :: "bytes \<Rightarrow> bytes" where
  "remainder bs = drop (16 * (length bs div 16)) bs"

fun cbc_encrypt :: "(bytes \<Rightarrow> bytes) \<Rightarrow> bytes \<Rightarrow> bytes list \<Rightarrow> bytes list" where
  "cbc_encrypt e prev [] = []"
| "cbc_encrypt e prev (p # ps) = (let c = e (xor_bytes p prev) in c # cbc_encrypt e c ps)"

fun cbc_decrypt :: "(bytes \<Rightarrow> bytes) \<Rightarrow> bytes \<Rightarrow> bytes list \<Rightarrow> bytes list" where
  "cbc_decrypt d prev [] = []"
| "cbc_decrypt d prev (c # cs) = xor_bytes (d c) prev # cbc_decrypt d c cs"

text \<open>The chaining value after a run of ciphertext blocks: the last of them.\<close>

definition chain_after :: "bytes \<Rightarrow> bytes list \<Rightarrow> bytes" where
  "chain_after prev cs = (if cs = [] then prev else last cs)"

definition pkcs7_pad :: "bytes \<Rightarrow> bytes" where
  "pkcs7_pad tail = tail @ replicate (16 - length tail) (of_nat (16 - length tail))"

text \<open>
  Removing the padding of the last block: the last byte \<open>n\<close> must be between 1 and 16
  and the last \<open>n\<close> bytes must all be \<open>n\<close>.
\<close>

definition pkcs7_unpad :: "bytes \<Rightarrow> bytes option" where
  "pkcs7_unpad block =
     (if block = [] then None
      else
        (let n = unat (last block) in
         if n = 0 \<or> 16 < n \<or> length block < n then None
         else if list_all (\<lambda>b. unat b = n) (drop (length block - n) block)
           then Some (take (length block - n) block)
           else None))"

text \<open>
  AES in CBC mode with PKCS padding over a whole message: what a cipher object produces
  between its creation and \<^verbatim>\<open>final\<close>, and what Web Crypto's \<^verbatim>\<open>decrypt\<close> undoes.
\<close>

definition aes_cbc_encrypt :: "primitives \<Rightarrow> bytes \<Rightarrow> bytes \<Rightarrow> bytes \<Rightarrow> bytes" where
  "aes_cbc_encrypt prims key iv plain =
     (let cs = cbc_encrypt (aes_encrypt_block prims key) iv (blocks plain)
      in concat cs @
         aes_encrypt_block prims key (xor_bytes (pkcs7_pad (remainder plain)) (chain_after iv cs)))"

definition aes_cbc_decrypt :: "primitives \<Rightarrow> bytes \<Rightarrow> bytes \<Rightarrow> bytes \<Rightarrow> bytes option" where
  "aes_cbc_decrypt prims key iv ciphertext =
     (if ciphertext = [] \<or> length ciphertext mod 16 \<noteq> 0 then None
      else
        (let plain = cbc_decrypt (aes_decrypt_block prims key) iv (blocks ciphertext)
         in case pkcs7_unpad (last plain) of
              None \<Rightarrow> None
            | Some tail \<Rightarrow> Some (concat (butlast plain) @ tail)))"

text \<open>
  A ciphertext whose last block fails the padding check under a key and an
  initialization vector.
\<close>

definition padding_fails :: "primitives \<Rightarrow> bytes \<Rightarrow> bytes \<Rightarrow> bytes \<Rightarrow> bool" where
  "padding_fails prims key iv ciphertext =
     (ciphertext \<noteq> [] \<and> length ciphertext mod 16 = 0 \<and>
      pkcs7_unpad (last (cbc_decrypt (aes_decrypt_block prims key) iv (blocks ciphertext))) = None)"

subsection \<open>Node's \<^verbatim>\<open>crypto\<close>\<close>

text \<open>
  A cipher object of Node: the key, the chaining value, the input not yet processed
  (for a decipher this includes the last whole block, held until \<^verbatim>\<open>final\<close>), whether it
  deciphers, and the string decoder of its output encoding.
\<close>

datatype decoder = NoDecoder | Utf8Decoder utf8_decoder | Base64Decoder bytes

record node_cipher =
  nc_key :: bytes
  nc_chain :: bytes
  nc_buffer :: bytes
  nc_decipher :: bool
  nc_decoder :: decoder

definition decode_input :: "js_string \<Rightarrow> encoding \<Rightarrow> bytes" where
  "decode_input s enc = (case enc of Utf8 \<Rightarrow> utf8_encode s | Base64 \<Rightarrow> base64_decode s)"

text \<open>The decoder of a cipher object is fixed by the first output encoding it is given.\<close>

definition get_decoder :: "decoder \<Rightarrow> encoding \<Rightarrow> js_error + decoder" where
  "get_decoder d enc =
     (case (d, enc) of
        (NoDecoder, Utf8) \<Rightarrow> Inr (Utf8Decoder utf8_decoder_init)
      | (NoDecoder, Base64) \<Rightarrow> Inr (Base64Decoder [])
      | (Utf8Decoder s, Utf8) \<Rightarrow> Inr d
      | (Base64Decoder p, Base64) \<Rightarrow> Inr d
      | _ \<Rightarrow> Inl (Provider InvalidArgument))"

definition decoder_write :: "decoder \<Rightarrow> bytes \<Rightarrow> js_string \<times> decoder" where
  "decoder_write d buf =
     (case d of
        Utf8Decoder s \<Rightarrow> (case utf8_write s buf of (out, s') \<Rightarrow> (out, Utf8Decoder s'))
      | Base64Decoder p \<Rightarrow> (case base64_write p buf of (out, p') \<Rightarrow> (out, Base64Decoder p'))
      | NoDecoder \<Rightarrow> ([], NoDecoder))"

definition decoder_end :: "decoder \<Rightarrow> bytes \<Rightarrow> js_string" where
  "decoder_end d buf =
     (case d of
        Utf8Decoder s \<Rightarrow> utf8_end s buf
      | Base64Decoder p \<Rightarrow> base64_end p buf
      | NoDecoder \<Rightarrow> [])"

text \<open>
  \<^verbatim>\<open>update\<close>: the whole blocks of the buffered and the new input are processed. A
  decipher whose input ends on a block boundary holds the last block back, since it
  may be the padded one.
\<close>

definition node_update ::
  "primitives \<Rightarrow> node_cipher \<Rightarrow> js_string \<Rightarrow> encoding \<Rightarrow> encoding \<Rightarrow> js_error + (js_string \<times> node_cipher)" where
  "node_update prims c input in_enc out_enc =
     (case get_decoder (nc_decoder c) out_enc of
        Inl e \<Rightarrow> Inl e
      | Inr dec \<Rightarrow>
          (let avail = nc_buffer c @ decode_input input in_enc;
               n = (if nc_decipher c \<and> length avail mod 16 = 0
                    then length avail div 16 - 1 else length avail div 16);
               now = take n (blocks avail);
               rest = drop (16 * n) avail;
               produced =
                 (if nc_decipher c
                  then concat (cbc_decrypt (aes_decrypt_block prims (nc_key c)) (nc_chain c) now)
                  else concat (cbc_encrypt (aes_encrypt_block prims (nc_key c)) (nc_chain c) now));
               chain =
                 (if nc_decipher c then chain_after (nc_chain c) now
                  else chain_after (nc_chain c)
                         (cbc_encrypt (aes_encrypt_block prims (nc_key c)) (nc_chain c) now))
           in case decoder_write dec produced of
                (out, dec') \<Rightarrow>
                  Inr (out, c\<lparr>nc_chain := chain, nc_buffer := rest, nc_decoder := dec'\<rparr>)))"

text \<open>
  \<^verbatim>\<open>final\<close>: a cipher pads what is left and encrypts it; a decipher needs exactly one
  held block (else \<^verbatim>\<open>wrong final block length\<close>), deciphers it and removes the
  padding (else \<^verbatim>\<open>bad decrypt\<close>).
\<close>

definition node_final :: "primitives \<Rightarrow> node_cipher \<Rightarrow> encoding \<Rightarrow> js_error + js_string" where
  "node_final prims c out_enc =
     (case get_decoder (nc_decoder c) out_enc of
        Inl e \<Rightarrow> Inl e
      | Inr dec \<Rightarrow>
          (if nc_decipher c then
             (if length (nc_buffer c) \<noteq> 16 then Inl (Provider WrongFinalBlockLength)
              else
                (case pkcs7_unpad (xor_bytes (aes_decrypt_block prims (nc_key c) (nc_buffer c)) (nc_chain c)) of
                   None \<Rightarrow> Inl (Provider BadDecrypt)
                 | Some tail \<Rightarrow> Inr (decoder_end dec tail)))
           else
             Inr (decoder_end dec
                    (aes_encrypt_block prims (nc_key c)
                       (xor_bytes (pkcs7_pad (nc_buffer c)) (nc_chain c))))))"

text \<open>
  \<^verbatim>\<open>createCipheriv\<close> and \<^verbatim>\<open>createDecipheriv\<close> check the algorithm name, then the
  length of the initialization vector, then the length of the key.
\<close>

definition cbc_key_length :: "string \<Rightarrow> nat option" where
  "cbc_key_length alg =
     (if alg = ''aes-128-cbc'' then Some 16
      else if alg = ''aes-192-cbc'' then Some 24
      else if alg = ''aes-256-cbc'' then Some 32
      else None)"

definition node_create ::
  "primitives \<Rightarrow> bool \<Rightarrow> string \<Rightarrow> bytes \<Rightarrow> bytes \<Rightarrow> js_error + node_cipher cipher_object" where
  "node_create prims decipher alg key iv =
     (case cbc_key_length alg of
        None \<Rightarrow> Inl (Provider UnknownCipher)
      | Some n \<Rightarrow>
          if length iv \<noteq> 16 then Inl (Provider InvalidIV)
          else if length key \<noteq> n then Inl (Provider InvalidKeyLength)
          else Inr \<lparr>cipher_state =
                      \<lparr>nc_key = key, nc_chain = iv, nc_buffer = [], nc_decipher = decipher,
                       nc_decoder = NoDecoder\<rparr>,
                    update = node_update prims,
                    final = node_final prims\<rparr>)"

definition node_digest :: "string \<Rightarrow> hash_alg option" where
  "node_digest name =
     (if name = ''sha1'' then Some SHA1
      else if name = ''sha256'' then Some SHA256
      else if name = ''sha384'' then Some SHA384
      else if name = ''sha512'' then Some SHA512
      else None)"

text \<open>\<^verbatim>\<open>pbkdf2Sync\<close> reads a string password as UTF-8.\<close>

definition node_pbkdf2Sync ::
  "primitives \<Rightarrow> js_string \<Rightarrow> bytes \<Rightarrow> nat \<Rightarrow> nat \<Rightarrow> string \<Rightarrow> js_error + bytes" where
  "node_pbkdf2Sync prims password salt iterations keylen digest =
     (if iterations = 0 then Inl (Provider InvalidArgument)
      else case node_digest digest of
        None \<Rightarrow> Inl (Provider InvalidDigest)
      | Some h \<Rightarrow> Inr (pbkdf2_hmac prims h (utf8_encode password) salt iterations keylen))"

definition node_crypto :: "primitives \<Rightarrow> node_cipher native_crypto" where
  "node_crypto prims =
     \<lparr>randomBytes = Some (\<lambda>n. Inr (random_source prims n)),
      pbkdf2Sync = Some (node_pbkdf2Sync prims),
      createCipheriv = Some (node_create prims False),
      createDecipheriv = Some (node_create prims True)\<rparr>"

subsection \<open>Web Crypto\<close>

record crypto_key =
  ck_algorithm :: string
  ck_extractable :: bool
  ck_usages :: "string list"
  ck_data :: bytes

text \<open>
  \<^verbatim>\<open>importKey\<close> of a raw key: a PBKDF2 key must not be extractable and may only derive;
  an AES-CBC key is 128, 192 or 256 bits long; a key needs a usage.
\<close>

definition web_importKey ::
  "string \<Rightarrow> bytes \<Rightarrow> string \<Rightarrow> bool \<Rightarrow> string list \<Rightarrow> js_error + crypto_key" where
  "web_importKey format keyData alg extractable usages =
     (let key = \<lparr>ck_algorithm = alg, ck_extractable = extractable, ck_usages = usages,
                 ck_data = keyData\<rparr> in
      if alg = ''PBKDF2'' then
        (if format \<noteq> ''raw'' then Inl (Provider NotSupportedError)
         else if \<not> list_all (\<lambda>u. u = ''deriveKey'' \<or> u = ''deriveBits'') usages then Inl (Provider SyntaxError)
         else if extractable then Inl (Provider SyntaxError)
         else if usages = [] then Inl (Provider SyntaxError)
         else Inr key)
      else if alg = ''AES-CBC'' then
        (if \<not> list_all (\<lambda>u. u = ''encrypt'' \<or> u = ''decrypt'' \<or> u = ''wrapKey'' \<or> u = ''unwrapKey'') usages
           then Inl (Provider SyntaxError)
         else if format \<noteq> ''raw'' then Inl (Provider NotSupportedError)
         else if length keyData \<noteq> 16 \<and> length keyData \<noteq> 24 \<and> length keyData \<noteq> 32
           then Inl (Provider DataError)
         else if usages = [] then Inl (Provider SyntaxError)
         else Inr key)
      else Inl (Provider NotSupportedError))"

definition web_hash :: "string \<Rightarrow> hash_alg option" where
  "web_hash name =
     (if name = ''SHA-1'' then Some SHA1
      else if name = ''SHA-256'' then Some SHA256
      else if name = ''SHA-384'' then Some SHA384
      else if name = ''SHA-512'' then Some SHA512
      else None)"

definition web_deriveBits :: "primitives \<Rightarrow> derive_params \<Rightarrow> crypto_key \<Rightarrow> nat \<Rightarrow> js_error + bytes" where
  "web_deriveBits prims params key len =
     (if dp_name params \<noteq> ''PBKDF2'' then Inl (Provider NotSupportedError)
      else case web_hash (dp_hash params) of
        None \<Rightarrow> Inl (Provider NotSupportedError)
      | Some h \<Rightarrow>
          if ck_algorithm key \<noteq> ''PBKDF2'' then Inl (Provider InvalidAccessError)
          else if ''deriveBits'' \<notin> set (ck_usages key) then Inl (Provider InvalidAccessError)
          else if len mod 8 \<noteq> 0 then Inl (Provider OperationError)
          else if dp_iterations params = 0 then Inl (Provider OperationError)
          else Inr (pbkdf2_hmac prims h (ck_data key) (dp_salt params) (dp_iterations params) (len div 8)))"

text \<open>
  \<^verbatim>\<open>decrypt\<close> with AES-CBC deciphers the whole input at once and removes the padding of
  its last block; any failure is an \<^verbatim>\<open>OperationError\<close>.
\<close>

definition web_decrypt :: "primitives \<Rightarrow> cipher_params \<Rightarrow> crypto_key \<Rightarrow> bytes \<Rightarrow> js_error + bytes" where
  "web_decrypt prims params key ciphertext =
     (if cp_name params \<noteq> ''AES-CBC'' then Inl (Provider NotSupportedError)
      else if ck_algorithm key \<noteq> ''AES-CBC'' then Inl (Provider InvalidAccessError)
      else if ''decrypt'' \<notin> set (ck_usages key) then Inl (Provider InvalidAccessError)
      else if length (cp_iv params) \<noteq> 16 then Inl (Provider OperationError)
      else case aes_cbc_decrypt prims (ck_data key) (cp_iv params) ciphertext of
             None \<Rightarrow> Inl (Provider OperationError)
           | Some plain \<Rightarrow> Inr plain)"

definition web_crypto :: "primitives \<Rightarrow> crypto_key browser_crypto" where
  "web_crypto prims =
     \<lparr>subtle = Some \<lparr>importKey = Some web_importKey,
                     deriveBits = Some (web_deriveBits prims),
                     decrypt = Some (web_decrypt prims)\<rparr>\<rparr>"

subsection \<open>A small block cipher to run the modules on\<close>

text \<open>
  An invertible keyed block transformation of the right shape, for evaluating the
  modules on concrete inputs: the block is reversed and combined with the first 16 key
  bytes (a shorter key is filled up with zeros). The derivation stands in for PBKDF2
  likewise.
\<close>

definition toy_encrypt_block :: "bytes \<Rightarrow> bytes \<Rightarrow> bytes" where
  "toy_encrypt_block key block = xor_bytes (rev block) (take 16 (key @ replicate 16 0))"

definition toy_decrypt_block :: "bytes \<Rightarrow> bytes \<Rightarrow> bytes" where
  "toy_decrypt_block key block = rev (xor_bytes block (take 16 (key @ replicate 16 0)))"

definition toy_pbkdf2 :: "hash_alg \<Rightarrow> bytes \<Rightarrow> bytes \<Rightarrow> nat \<Rightarrow> nat \<Rightarrow> bytes" where
  "toy_pbkdf2 h password salt iterations keylen =
     take keylen (map (\<lambda>b. b + of_nat (iterations mod 256)) (password @ salt) @ replicate keylen 0)"

definition toy :: primitives where
  "toy = \<lparr>aes_encrypt_block = toy_encrypt_block, aes_decrypt_block = toy_decrypt_block,
          pbkdf2_hmac = toy_pbkdf2, random_source = (\<lambda>n. replicate n 7)\<rparr>"

text \<open>
  What the claims need of the block transformation: under a key of 128, 192 or 256 bits
  it maps blocks to blocks, and deciphering undoes enciphering.
\<close>

definition block_cipher :: "primitives \<Rightarrow> bool" where
  "block_cipher prims =
     (\<forall>k b. (length k = 16 \<or> length k = 24 \<or> length k = 32) \<and> length b = 16 \<longrightarrow>
        length (aes_encrypt_block prims k b) = 16 \<and>
        aes_decrypt_block prims k (aes_encrypt_block prims k b) = b)"

text \<open>A Unicode scalar value: a code point that is not a surrogate.\<close>

definition scalar :: "nat \<Rightarrow> bool" where
  "scalar cp = (cp < 0x110000 \<and> \<not> (0xD800 \<le> cp \<and> cp \<le> 0xDFFF))"


text \<open>The code points that \<open>utf8_encode\<close> writes for a string, one after the other.\<close>

fun code_points :: "js_string \<Rightarrow> nat list" where
  "code_points [] = []"
| "code_points [u] =
     (if is_high_surrogate u \<or> is_low_surrogate u then [0xFFFD] else [unat u])"
| "code_points (u # l # us) =
     (if is_high_surrogate u then
        (if is_low_surrogate l then
           (0x10000 + (unat u - 0xD800) * 1024 + (unat l - 0xDC00)) # code_points us
         else 0xFFFD # code_points (l # us))
      else if is_low_surrogate u then 0xFFFD # code_points (l # us)
      else unat u # code_points (l # us))"

text \<open>
  The shape of one encoded character, as far as the upper bits of its bytes show it: a
  single byte below \<^verbatim>\<open>0x80\<close>, or a first byte followed by the continuation bytes it
  announces.
\<close>

definition char_shape :: "bytes \<Rightarrow> bool" where
  "char_shape c =
     (case c of
        [] \<Rightarrow> False
      | l # conts \<Rightarrow>
          list_all is_continuation conts \<and>
          (if conts = [] then unat l < 0x80 else lead_length l = length c))"

section \<open>Base64 and UTF-8 round trips\<close>

subsection \<open>Base64\<close>

lemma unat_of_nat16: "x < 65536 \<Longrightarrow> unat (of_nat x :: 16 word) = x"
  by (simp add: unat_of_nat)

lemma unat_of_nat8: "x < 256 \<Longrightarrow> unat (of_nat x :: 8 word) = x"
  by (simp add: unat_of_nat)

lemma b64_char_unat: "n < 64 \<Longrightarrow> unat (b64_char n) = (if n < 26 then 65 + n else if n < 52 then 71 + n else if n < 62 then n - 4 else if n = 62 then 43 else 47)"
  unfolding b64_char_def by (simp del: of_nat_add of_nat_diff add: unat_of_nat16)

lemma b64_char_low_byte: "n < 64 \<Longrightarrow> low_byte (b64_char n) = unat (b64_char n)"
  unfolding low_byte_def by (simp only: b64_char_unat) simp

lemma unbase64_b64_char: "n < 64 \<Longrightarrow> unbase64 (b64_char n) = Some n"
  unfolding unbase64_def Let_def by (simp only: b64_char_low_byte b64_char_unat) (auto)

lemma b64_char_not_pad: "n < 64 \<Longrightarrow> not_pad (b64_char n)"
  unfolding not_pad_def by (simp only: b64_char_low_byte b64_char_unat) (simp, linarith)

lemma pad_char_is_pad: "\<not> not_pad pad_char"
  by (simp add: not_pad_def low_byte_def pad_char_def)

lemma unat8_lt: "unat (a :: 8 word) < 256"
  using unsigned_less[of a] by simp

lemma div_mult_add_less: "b < c \<Longrightarrow> (a * c + b) div c = (a::nat)" by simp

lemma mod_mult_add_less: "b < c \<Longrightarrow> (a * c + b) mod c = (b::nat)" by simp

lemma sextet_bounds:
  "unat (a::8 word) div 4 < 64" "(unat a mod 4) * 16 + unat (b::8 word) div 16 < 64"
  "(unat b mod 16) * 4 + unat (c::8 word) div 64 < 64" "unat c mod 64 < 64"
  "(unat a mod 4) * 16 < 64" "(unat b mod 16) * 4 < 64"
proof -
  have a: "unat a div 4 < 64" "unat a mod 4 < 4" using unat8_lt[of a] by simp_all
  have b: "unat b div 16 < 16" "unat b mod 16 < 16" using unat8_lt[of b] by simp_all
  have c: "unat c div 64 < 4" "unat c mod 64 < 64" using unat8_lt[of c] by simp_all
  show "unat a div 4 < 64" by (rule a)
  show "(unat a mod 4) * 16 + unat b div 16 < 64" using a b by linarith
  show "(unat b mod 16) * 4 + unat c div 64 < 64" using b c by linarith
  show "unat c mod 64 < 64" by (rule c)
  show "(unat a mod 4) * 16 < 64" using a by linarith
  show "(unat b mod 16) * 4 < 64" using b by linarith
qed

lemma byte_recompose:
  "of_nat (unat a div 4 * 4 + ((unat a mod 4) * 16 + unat b div 16) div 16) = (a::8 word)"
  "of_nat ((((unat a mod 4) * 16 + unat b div 16) mod 16) * 16 + ((unat b mod 16) * 4 + unat c div 64) div 4) = (b::8 word)"
  "of_nat ((((unat b mod 16) * 4 + unat c div 64) mod 4) * 64 + unat c mod 64) = (c::8 word)"
  "of_nat (unat a div 4 * 4 + ((unat a mod 4) * 16) div 16) = a"
  "of_nat ((((unat a mod 4) * 16 + unat b div 16) mod 16) * 16 + ((unat b mod 16) * 4) div 4) = b"
proof -
  have b: "unat b div 16 < 16" using unat8_lt[of b] by simp
  have c: "unat c div 64 < 4" using unat8_lt[of c] by simp
  have 1: "unat a div 4 * 4 + ((unat a mod 4) * 16 + unat b div 16) div 16 = unat a"
    by (simp only: div_mult_add_less[OF b]) simp
  have 2: "(((unat a mod 4) * 16 + unat b div 16) mod 16) * 16 + ((unat b mod 16) * 4 + unat c div 64) div 4 = unat b"
    by (simp only: mod_mult_add_less[OF b] div_mult_add_less[OF c]) simp
  have 3: "(((unat b mod 16) * 4 + unat c div 64) mod 4) * 64 + unat c mod 64 = unat c"
    by (simp only: mod_mult_add_less[OF c]) simp
  have 4: "unat a div 4 * 4 + ((unat a mod 4) * 16) div 16 = unat a" by simp
  have 5: "(((unat a mod 4) * 16 + unat b div 16) mod 16) * 16 + ((unat b mod 16) * 4) div 4 = unat b"
    by (simp only: mod_mult_add_less[OF b]) simp
  show "of_nat (unat a div 4 * 4 + ((unat a mod 4) * 16 + unat b div 16) div 16) = (a::8 word)"
    by (simp only: 1) simp
  show "of_nat ((((unat a mod 4) * 16 + unat b div 16) mod 16) * 16 + ((unat b mod 16) * 4 + unat c div 64) div 4) = (b::8 word)"
    by (simp only: 2) simp
  show "of_nat ((((unat b mod 16) * 4 + unat c div 64) mod 4) * 64 + unat c mod 64) = (c::8 word)"
    by (simp only: 3) simp
  show "of_nat (unat a div 4 * 4 + ((unat a mod 4) * 16) div 16) = a"
    by (simp only: 4) simp
  show "of_nat ((((unat a mod 4) * 16 + unat b div 16) mod 16) * 16 + ((unat b mod 16) * 4) div 4) = b"
    by (simp only: 5) simp
qed

lemma map_filter_b64_char: "n < 64 \<Longrightarrow> List.map_filter unbase64 (b64_char n # cs) = n # List.map_filter unbase64 cs"
  by (simp add: unbase64_b64_char)

lemma takeWhile_b64_char: "n < 64 \<Longrightarrow> takeWhile not_pad (b64_char n # cs) = b64_char n # takeWhile not_pad cs"
  by (simp add: b64_char_not_pad)

lemma takeWhile_pad_char: "takeWhile not_pad (pad_char # cs) = []"
  by (simp add: pad_char_is_pad)

lemma base64_decode_encode: "base64_decode (base64_encode bs) = bs"
  unfolding base64_decode_def
proof (induction bs rule: base64_encode.induct)
  case (1 a b c rest)
  then show ?case
    by (simp only: base64_encode.simps append_Cons append_Nil takeWhile_b64_char map_filter_b64_char sextet_bounds sextets_bytes.simps byte_recompose)
next
  case (2 a b)
  show ?case
    by (simp only: base64_encode.simps takeWhile_b64_char takeWhile_pad_char map_filter_b64_char sextet_bounds sextets_bytes.simps byte_recompose List.map_filter_simps(1))
next
  case (3 a)
  show ?case
    by (simp only: base64_encode.simps takeWhile_b64_char takeWhile_pad_char map_filter_b64_char sextet_bounds sextets_bytes.simps byte_recompose List.map_filter_simps(1))
next
  case 4
  show ?case by simp
qed

lemma base64_encode_append:
  "length xs mod 3 = 0 \<Longrightarrow> base64_encode (xs @ ys) = base64_encode xs @ base64_encode ys"
proof (induction xs rule: base64_encode.induct)
  case (1 a b c rest)
  then show ?case by simp
qed simp_all

subsection \<open>UTF-8\<close>

text \<open>
  The decoder is a fold over the bytes, so decoding in two pieces (as a string decoder
  does between \<^verbatim>\<open>update\<close> and \<^verbatim>\<open>final\<close>) is decoding the whole.
\<close>

lemma utf8_run_append:
  "utf8_run s (xs @ ys) =
     (case utf8_run s xs of (o1, s1) \<Rightarrow> (case utf8_run s1 ys of (o2, s2) \<Rightarrow> (o1 @ o2, s2)))"
  by (induction xs arbitrary: s) (auto split: prod.splits)

lemma lead_byte_mod:
  "q < 32 \<Longrightarrow> (192 + q) mod 32 = (q::nat)"
  "q < 16 \<Longrightarrow> (224 + q) mod 16 = (q::nat)"
  "q < 8 \<Longrightarrow> (240 + q) mod 8 = (q::nat)"
  "q < 64 \<Longrightarrow> (128 + q) mod 64 = (q::nat)"
  by (simp_all add: mod_add_eq[symmetric, of 192] mod_add_eq[symmetric, of 224]
      mod_add_eq[symmetric, of 240] mod_add_eq[symmetric, of 128])

lemma utf8_run_bytes1: "cp < 0x80 \<Longrightarrow> utf8_run utf8_init (utf8_bytes cp) = (code_units cp, utf8_init)"
  by (simp add: utf8_bytes_def utf8_step_def utf8_start_def utf8_init_def code_units_def Let_def unat_of_nat8 del: of_nat_add)

lemma utf8_step_continuation:
  assumes "r < 64" "lo \<le> 128 + r" "128 + r \<le> hi" "0 < needed"
  shows "utf8_step (U8 c seen needed lo hi) (of_nat (128 + r)) =
     (if seen + 1 = needed then (code_units (c * 64 + r), utf8_init)
      else ([], U8 (c * 64 + r) (seen + 1) needed 0x80 0xBF))"
proof -
  have u: "unat (of_nat (128 + r) :: byte) = 128 + r"
    using assms(1) by (intro unat_of_nat8) simp
  show ?thesis
    unfolding utf8_step_def Let_def u using assms by (simp add: lead_byte_mod)
qed

lemma utf8_run_bytes2:
  assumes "0x80 \<le> cp" "cp < 0x800"
  shows "utf8_run utf8_init (utf8_bytes cp) = (code_units cp, utf8_init)"
proof -
  define q where "q = cp div 64"
  define r where "r = cp mod 64"
  have q: "2 \<le> q" "q < 32" and r: "r < 64" and cp: "q * 64 + r = cp"
    using assms by (simp_all add: q_def r_def)
  have bytes: "utf8_bytes cp = [of_nat (192 + q), of_nat (128 + r)]"
    using assms by (simp add: utf8_bytes_def q_def r_def del: of_nat_add)
  have u: "unat (of_nat (192 + q) :: byte) = 192 + q"
    using q by (intro unat_of_nat8) simp
  have s1: "utf8_step utf8_init (of_nat (192 + q)) = ([], U8 q 0 1 0x80 0xBF)"
    unfolding utf8_step_def utf8_start_def Let_def u using q by (simp add: utf8_init_def lead_byte_mod)
  have s2: "utf8_step (U8 q 0 1 0x80 0xBF) (of_nat (128 + r)) = (code_units cp, utf8_init)"
    using r by (subst utf8_step_continuation) (simp_all add: cp)
  show ?thesis by (simp only: bytes utf8_run.simps s1 s2 prod.case append_Nil append_Nil2)
qed

lemma utf8_run_bytes3:
  assumes "0x800 \<le> cp" "cp < 0x10000" "\<not> (0xD800 \<le> cp \<and> cp \<le> 0xDFFF)"
  shows "utf8_run utf8_init (utf8_bytes cp) = (code_units cp, utf8_init)"
proof -
  define a where "a = cp div 4096"
  define b where "b = cp div 64 mod 64"
  define c where "c = cp mod 64"
  have d: "cp div 4096 = cp div 64 div 64" by (simp add: div_mult2_eq)
  have a: "a < 16" and b: "b < 64" and c: "c < 64"
    using assms by (simp_all add: a_def b_def c_def)
  have ab: "a * 64 + b = cp div 64" by (simp add: a_def b_def d)
  have cp: "(a * 64 + b) * 64 + c = cp" by (simp add: ab c_def)
  have lo: "a = 0 \<Longrightarrow> 32 \<le> b"
  proof -
    assume "a = 0"
    with ab have "b = cp div 64" by simp
    with assms show ?thesis by simp
  qed
  have hi: "a = 13 \<Longrightarrow> b < 32"
  proof -
    assume "a = 13"
    with ab have "832 + b = cp div 64" by simp
    moreover from assms have "cp < 0xD800 \<or> 0xDFFF < cp" by auto
    moreover have "cp div 64 < 896" using \<open>a = 13\<close> ab b by simp
    ultimately show ?thesis using assms by (auto simp: less_mult_imp_div_less div_less_iff_less_mult)
  qed
  have bytes: "utf8_bytes cp = [of_nat (224 + a), of_nat (128 + b), of_nat (128 + c)]"
    using assms by (simp add: utf8_bytes_def a_def b_def c_def del: of_nat_add)
  have u: "unat (of_nat (224 + a) :: byte) = 224 + a"
    using a by (intro unat_of_nat8) simp
  have s1: "utf8_step utf8_init (of_nat (224 + a)) =
      ([], U8 a 0 2 (if a = 0 then 0xA0 else 0x80) (if a = 13 then 0x9F else 0xBF))"
    unfolding utf8_step_def utf8_start_def Let_def u using a by (simp add: utf8_init_def lead_byte_mod)
  have s2: "utf8_step (U8 a 0 2 (if a = 0 then 0xA0 else 0x80) (if a = 13 then 0x9F else 0xBF)) (of_nat (128 + b))
      = ([], U8 (a * 64 + b) 1 2 0x80 0xBF)"
    using b lo hi by (subst utf8_step_continuation) (auto)
  have s3: "utf8_step (U8 (a * 64 + b) 1 2 0x80 0xBF) (of_nat (128 + c)) = (code_units cp, utf8_init)"
    using c cp by (subst utf8_step_continuation) simp_all
  show ?thesis by (simp only: bytes utf8_run.simps s1 s2 s3 prod.case append_Nil append_Nil2)
qed

lemma utf8_run_bytes4:
  assumes "0x10000 \<le> cp" "cp < 0x110000"
  shows "utf8_run utf8_init (utf8_bytes cp) = (code_units cp, utf8_init)"
proof -
  define a where "a = cp div 262144"
  define b where "b = cp div 4096 mod 64"
  define c where "c = cp div 64 mod 64"
  define d where "d = cp mod 64"
  have d1: "cp div 4096 = cp div 64 div 64" by (simp add: div_mult2_eq)
  have d2: "cp div 262144 = cp div 4096 div 64" by (simp add: div_mult2_eq)
  have a: "a < 5" and b: "b < 64" and c: "c < 64" and d: "d < 64"
    using assms by (simp_all add: a_def b_def c_def d_def)
  have ab: "a * 64 + b = cp div 4096" by (simp add: a_def b_def d2)
  have abc: "(a * 64 + b) * 64 + c = cp div 64" unfolding ab c_def d1 by simp
  have cp: "((a * 64 + b) * 64 + c) * 64 + d = cp" unfolding abc d_def by simp
  have lo: "a = 0 \<Longrightarrow> 16 \<le> b"
  proof -
    assume "a = 0"
    with ab have "b = cp div 4096" by simp
    with assms show ?thesis by simp
  qed
  have hi: "a = 4 \<Longrightarrow> b < 16"
  proof -
    assume "a = 4"
    with ab have "256 + b = cp div 4096" by simp
    moreover have "cp div 4096 < 272" using assms by simp
    ultimately show ?thesis by simp
  qed
  have bytes: "utf8_bytes cp = [of_nat (240 + a), of_nat (128 + b), of_nat (128 + c), of_nat (128 + d)]"
    using assms by (simp add: utf8_bytes_def a_def b_def c_def d_def del: of_nat_add)
  have u: "unat (of_nat (240 + a) :: byte) = 240 + a"
    using a by (intro unat_of_nat8) simp
  have s1: "utf8_step utf8_init (of_nat (240 + a)) =
      ([], U8 a 0 3 (if a = 0 then 0x90 else 0x80) (if a = 4 then 0x8F else 0xBF))"
    unfolding utf8_step_def utf8_start_def Let_def u using a by (simp add: utf8_init_def lead_byte_mod)
  have s2: "utf8_step (U8 a 0 3 (if a = 0 then 0x90 else 0x80) (if a = 4 then 0x8F else 0xBF)) (of_nat (128 + b))
      = ([], U8 (a * 64 + b) 1 3 0x80 0xBF)"
    using b lo hi by (subst utf8_step_continuation) (auto)
  have s3: "utf8_step (U8 (a * 64 + b) 1 3 0x80 0xBF) (of_nat (128 + c)) = ([], U8 ((a * 64 + b) * 64 + c) 2 3 0x80 0xBF)"
    using c by (subst utf8_step_continuation) simp_all
  have s4: "utf8_step (U8 ((a * 64 + b) * 64 + c) 2 3 0x80 0xBF) (of_nat (128 + d)) = (code_units cp, utf8_init)"
    using d cp by (subst utf8_step_continuation) simp_all
  show ?thesis by (simp only: bytes utf8_run.simps s1 s2 s3 s4 prod.case append_Nil append_Nil2)
qed

lemma utf8_run_scalar:
  "scalar cp \<Longrightarrow> utf8_run utf8_init (utf8_bytes cp) = (code_units cp, utf8_init)"
  unfolding scalar_def
  using utf8_run_bytes1[of cp] utf8_run_bytes2[of cp] utf8_run_bytes3[of cp] utf8_run_bytes4[of cp] by linarith

lemma code_units_bmp: "code_units (unat u) = [u]"
proof -
  have "unat u < 65536" using unsigned_less[of u] by simp
  then show ?thesis by (simp add: code_units_def)
qed

lemma code_units_pair:
  assumes "is_high_surrogate h" "is_low_surrogate l"
  shows "code_units (0x10000 + (unat h - 0xD800) * 1024 + (unat l - 0xDC00)) = [h, l]"
    and "scalar (0x10000 + (unat h - 0xD800) * 1024 + (unat l - 0xDC00))"
proof -
  define x where "x = unat h - 0xD800"
  define y where "y = unat l - 0xDC00"
  have x: "x < 1024" "0xD800 + x = unat h" and y: "y < 1024" "0xDC00 + y = unat l"
    using assms by (auto simp: x_def y_def is_high_surrogate_def is_low_surrogate_def)
  have 1: "of_nat (0xD800 + x) = h" "of_nat (0xDC00 + y) = l"
    by (simp_all only: x y) simp_all
  have 2: "(x * 1024 + y) div 1024 = x" "(x * 1024 + y) mod 1024 = y" using y by simp_all
  show "code_units (0x10000 + (unat h - 0xD800) * 1024 + (unat l - 0xDC00)) = [h, l]"
    unfolding x_def[symmetric] y_def[symmetric] code_units_def
    using 1 2 by (simp del: of_nat_add)
  show "scalar (0x10000 + (unat h - 0xD800) * 1024 + (unat l - 0xDC00))"
    unfolding x_def[symmetric] y_def[symmetric] scalar_def using x y by simp
qed

lemma not_surrogate_scalar:
  "\<not> is_high_surrogate u \<Longrightarrow> \<not> is_low_surrogate u \<Longrightarrow> scalar (unat u)"
proof -
  assume a: "\<not> is_high_surrogate u" "\<not> is_low_surrogate u"
  have "unat u < 65536" using unsigned_less[of u] by simp
  with a show ?thesis by (auto simp: scalar_def is_high_surrogate_def is_low_surrogate_def)
qed

lemma utf8_run_encode: "well_formed s \<Longrightarrow> utf8_run utf8_init (utf8_encode s) = (s, utf8_init)"
proof (induction s rule: well_formed.induct)
  case 1
  show ?case by simp
next
  case (2 u)
  then show ?case
    by (simp add: utf8_run_scalar not_surrogate_scalar code_units_bmp)
next
  case (3 u l us)
  show ?case
  proof (cases "is_high_surrogate u")
    case True
    with 3 have l: "is_low_surrogate l" and wf: "well_formed us"  by simp_all
    from 3 True wf have ih: "utf8_run utf8_init (utf8_encode us) = (us, utf8_init)" by simp
    show ?thesis
      using True l by (simp add: utf8_run_append utf8_run_scalar code_units_pair ih)
  next
    case False
    with 3 have nl: "\<not> is_low_surrogate u" and wf: "well_formed (l # us)" by simp_all
    from 3 False wf have ih: "utf8_run utf8_init (utf8_encode (l # us)) = (l # us, utf8_init)" by simp
    show ?thesis
      using False nl
      by (simp add: utf8_run_append utf8_run_scalar not_surrogate_scalar code_units_bmp ih)
  qed
qed

lemma utf8_decode_encode: "well_formed s \<Longrightarrow> utf8_decode (utf8_encode s) = s"
  by (simp add: utf8_decode_def utf8_run_encode utf8_flush_def) (simp add: utf8_init_def)

lemma utf8_run_bom:
  "utf8_run utf8_init (0xEF # 0xBB # 0xBF # r) =
     (0xFEFF # fst (utf8_run utf8_init r), snd (utf8_run utf8_init r))"
  by (simp add: utf8_step_def utf8_start_def utf8_init_def code_units_def Let_def split: prod.splits)

lemma encode_no_bom:
  assumes "well_formed s" "s = [] \<or> hd s \<noteq> 0xFEFF"
  shows "take 3 (utf8_encode s) \<noteq> [0xEF, 0xBB, 0xBF]"
proof
  assume t: "take 3 (utf8_encode s) = [0xEF, 0xBB, 0xBF]"
  have "utf8_encode s = take 3 (utf8_encode s) @ drop 3 (utf8_encode s)" by simp
  then have e: "utf8_encode s = 0xEF # 0xBB # 0xBF # drop 3 (utf8_encode s)"
    by (simp only: t append_Cons append_Nil)
  have "fst (utf8_run utf8_init (utf8_encode s)) = s"
    using assms(1) by (simp add: utf8_run_encode)
  then have "s = 0xFEFF # fst (utf8_run utf8_init (drop 3 (utf8_encode s)))"
    by (subst (asm) e) (simp only: utf8_run_bom fst_conv)
  then have "s \<noteq> []" "hd s = 0xFEFF" by (metis list.distinct(1), metis list.sel(1))
  with assms(2) show False by simp
qed

lemma text_decoder_decode_encode:
  "well_formed s \<Longrightarrow> s = [] \<or> hd s \<noteq> 0xFEFF \<Longrightarrow> text_decoder_decode (utf8_encode s) = s"
  by (simp add: text_decoder_decode_def encode_no_bom utf8_decode_encode)

subsection \<open>Node's string decoder on encoded text\<close>

text \<open>
  What \<open>utf8_encode\<close> writes is a sequence of encoded scalar values. Wherever such a
  sequence is cut in two, the string decoder keeps exactly the bytes of the character
  that the cut divides, and finishes it with the first bytes of the second piece: what
  \<^verbatim>\<open>write\<close> returns for the first piece followed by what \<^verbatim>\<open>end\<close> returns for the second
  is the decoding of the whole.
\<close>

lemma utf8_encode_code_points: "utf8_encode s = concat (map utf8_bytes (code_points s))"
  by (induction s rule: utf8_encode.induct) simp_all

lemma scalar_fffd: "scalar 0xFFFD" by (simp add: scalar_def)

lemma code_points_scalar: "\<forall>cp\<in>set (code_points s). scalar cp"
  by (induction s rule: code_points.induct)
     (simp_all add: scalar_fffd not_surrogate_scalar code_units_pair(2))

lemma utf8_run_scalars:
  "\<forall>cp\<in>set cps. scalar cp \<Longrightarrow>
   utf8_run utf8_init (concat (map utf8_bytes cps)) = (concat (map code_units cps), utf8_init)"
  by (induction cps) (simp_all add: utf8_run_append utf8_run_scalar)

lemma utf8_decode_scalars:
  "\<forall>cp\<in>set cps. scalar cp \<Longrightarrow>
   utf8_decode (concat (map utf8_bytes cps)) = concat (map code_units cps)"
  by (simp add: utf8_decode_def utf8_run_scalars utf8_flush_def) (simp add: utf8_init_def)

lemma utf8_decode_scalar: "scalar cp \<Longrightarrow> utf8_decode (utf8_bytes cp) = code_units cp"
  using utf8_decode_scalars[of "[cp]"] by simp

lemma char_shape_bytes: "scalar cp \<Longrightarrow> char_shape (utf8_bytes cp)"
proof -
  assume s: "scalar cp"
  have c: "\<And>r. r < 64 \<Longrightarrow> is_continuation (of_nat (128 + r))"
    by (simp add: is_continuation_def unat_of_nat8 del: of_nat_add)
  have m: "cp mod 64 < 64" "cp div 64 mod 64 < 64" "cp div 4096 mod 64 < 64" by simp_all
  consider "cp < 0x80" | "0x80 \<le> cp" "cp < 0x800" | "0x800 \<le> cp" "cp < 0x10000" | "0x10000 \<le> cp" "cp < 0x110000"
    using s unfolding scalar_def by (meson not_le_imp_less)
  then show ?thesis
  proof cases
    case 1
    then show ?thesis by (simp add: char_shape_def utf8_bytes_def unat_of_nat8)
  next
    case 2
    then have "cp div 64 < 32" by simp
    then have "lead_length (of_nat (192 + cp div 64)) = 2"
      by (simp add: lead_length_def unat_of_nat8 del: of_nat_add)
    with 2 show ?thesis
      by (simp add: char_shape_def utf8_bytes_def c m del: of_nat_add)
  next
    case 3
    then have "cp div 4096 < 16" by simp
    then have "lead_length (of_nat (224 + cp div 4096)) = 3"
      by (simp add: lead_length_def unat_of_nat8 del: of_nat_add)
    with 3 show ?thesis
      by (simp add: char_shape_def utf8_bytes_def c m del: of_nat_add)
  next
    case 4
    then have "cp div 262144 < 5" by simp
    then have "lead_length (of_nat (240 + cp div 262144)) = 4"
      by (simp add: lead_length_def unat_of_nat8 del: of_nat_add)
    with 4 show ?thesis
      by (simp add: char_shape_def utf8_bytes_def c m del: of_nat_add)
  qed
qed

lemma tail_scan_conts:
  "list_all is_continuation conts \<Longrightarrow> k + length conts \<le> 3 \<Longrightarrow> \<not> is_continuation l \<Longrightarrow>
   tail_scan k (rev conts @ l # earlier) =
     (if lead_length l \<le> k + length conts + 1 then (0, 0)
      else (k + length conts + 1, lead_length l - (k + length conts + 1)))"
proof (induction conts arbitrary: k rule: rev_induct)
  case Nil
  then show ?case by simp
next
  case (snoc c conts)
  then show ?case by simp
qed


lemma continuation_ge: "is_continuation b \<Longrightarrow> 0x80 \<le> unat b"
  by (simp add: is_continuation_def)

lemma lead_length_cases: "lead_length l = 0 \<or> lead_length l = 2 \<or> lead_length l = 3 \<or> lead_length l = 4"
  by (simp add: lead_length_def Let_def)

lemma lead_ge: "2 \<le> lead_length l \<Longrightarrow> 0x80 \<le> unat l \<and> \<not> is_continuation l"
  by (auto simp: lead_length_def is_continuation_def Let_def split: if_splits)

lemma char_shape_multi:
  assumes "char_shape c" "2 \<le> length c"
  obtains l conts where "c = l # conts" "conts \<noteq> []" "list_all is_continuation conts"
    "lead_length l = length c" "length c \<le> 4" "\<not> is_continuation l" "0x80 \<le> unat l"
proof -
  from assms(2) obtain l conts where c0: "c = l # conts" by (cases c) auto
  with assms(2) have "conts \<noteq> []" by auto
  note c = c0 this
  with assms have a: "list_all is_continuation conts" and ll: "lead_length l = length c"
    by (simp_all add: char_shape_def)
  from ll assms(2) have "2 \<le> lead_length l" by simp
  then have g: "0x80 \<le> unat l \<and> \<not> is_continuation l" by (rule lead_ge)
  from ll lead_length_cases[of l] have "length c \<le> 4" by auto
  with c a ll g show ?thesis using that by blast
qed

lemma held_back_partial:
  assumes "char_shape c" "0 < j" "j < length c"
  shows "held_back (xs @ take j c) = (j, length c - j)"
proof -
  from assms obtain l conts where c: "c = l # conts" "conts \<noteq> []" "list_all is_continuation conts"
    "lead_length l = length c" "length c \<le> 4" "\<not> is_continuation l" "0x80 \<le> unat l"
    by (elim char_shape_multi) simp_all
  define p where "p = take (j - 1) conts"
  have t: "take j c = l # p" using assms(2) c(1) by (cases j) (simp_all add: p_def)
  have lp: "length p = j - 1" using assms(3) c(1) by (simp add: p_def)
  have ap: "list_all is_continuation p" using c(3) unfolding p_def list_all_iff
    by (meson in_set_takeD)
  have last: "0x80 \<le> unat (last (xs @ l # p))"
  proof (cases "p = []")
    case True
    then show ?thesis using c(7) by simp
  next
    case False
    then have "last (xs @ l # p) = last p" by simp
    moreover have "is_continuation (last p)" using ap False by (simp add: list_all_iff)
    ultimately show ?thesis by (simp add: continuation_ge)
  qed
  have "tail_scan 0 (rev p @ l # rev xs) =
     (if lead_length l \<le> 0 + length p + 1 then (0, 0)
      else (0 + length p + 1, lead_length l - (0 + length p + 1)))"
    using ap c(5,6) assms(3) lp by (intro tail_scan_conts) simp_all
  then have "tail_scan 0 (rev p @ l # rev xs) = (j, length c - j)"
    using assms(2,3) lp c(4) by simp
  then show ?thesis unfolding t held_back_def using last by simp
qed

lemma held_back_complete:
  assumes "list_all char_shape cs"
  shows "held_back (concat cs) = (0, 0)"
proof (cases "concat cs = []")
  case True
  then show ?thesis by (simp add: held_back_def)
next
  case False
  then have "cs \<noteq> []" by auto
  then obtain cs' c where cs: "cs = cs' @ [c]" by (metis rev_exhaust)
  with assms have sh: "char_shape c" by simp
  show ?thesis
  proof (cases "2 \<le> length c")
    case True
    with sh obtain l conts where c: "c = l # conts" "conts \<noteq> []" "list_all is_continuation conts"
      "lead_length l = length c" "length c \<le> 4" "\<not> is_continuation l" "0x80 \<le> unat l"
      by (elim char_shape_multi) simp_all
    have "tail_scan 0 (rev conts @ l # rev (concat cs')) =
       (if lead_length l \<le> 0 + length conts + 1 then (0, 0)
        else (0 + length conts + 1, lead_length l - (0 + length conts + 1)))"
      using c by (intro tail_scan_conts) simp_all
    then have "tail_scan 0 (rev conts @ l # rev (concat cs')) = (0, 0)"
      using c(1,4) by simp
    then show ?thesis unfolding held_back_def cs c(1) by simp
  next
    case False
    from sh obtain l conts where c0: "c = l # conts" by (cases c) (auto simp: char_shape_def)
    with False have e: "conts = []" by (cases conts) auto
    with sh c0 have "unat l < 0x80" by (simp add: char_shape_def)
    then show ?thesis unfolding held_back_def cs c0 e by simp
  qed
qed

lemma utf8_bytes_shapes: "\<forall>cp\<in>set cps. scalar cp \<Longrightarrow> list_all char_shape (map utf8_bytes cps)"
  by (simp add: list_all_iff char_shape_bytes)

lemma utf8_write_complete:
  assumes "\<forall>cp\<in>set cps. scalar cp"
  shows "utf8_write utf8_decoder_init (concat (map utf8_bytes cps)) =
           (concat (map code_units cps), utf8_decoder_init)"
proof -
  have h: "held_back (concat (map utf8_bytes cps)) = (0, 0)"
    using assms by (intro held_back_complete utf8_bytes_shapes)
  have d: "utf8_decode (concat (map utf8_bytes cps)) = concat (map code_units cps)"
    using assms by (rule utf8_decode_scalars)
  define bs where "bs = concat (map utf8_bytes cps)"
  show ?thesis unfolding bs_def[symmetric]
  proof (cases "bs = []")
    case True
    with d have "concat (map code_units cps) = []"
      unfolding bs_def[symmetric] by (simp add: utf8_decode_def utf8_flush_def utf8_init_def)
    with True show "utf8_write utf8_decoder_init bs = (concat (map code_units cps), utf8_decoder_init)"
      by (simp add: utf8_write_def utf8_decoder_init_def)
  next
    case False
    then show "utf8_write utf8_decoder_init bs = (concat (map code_units cps), utf8_decoder_init)"
      using h d unfolding bs_def[symmetric] utf8_write_def utf8_decoder_init_def by simp
  qed
qed

lemma utf8_write_partial:
  assumes "\<forall>cp\<in>set cps. scalar cp" "scalar cp" "0 < j" "j < length (utf8_bytes cp)"
  shows "utf8_write utf8_decoder_init (concat (map utf8_bytes cps) @ take j (utf8_bytes cp)) =
           (concat (map code_units cps),
            \<lparr>held = take j (utf8_bytes cp), missing = length (utf8_bytes cp) - j\<rparr>)"
proof -
  have h: "held_back (concat (map utf8_bytes cps) @ take j (utf8_bytes cp)) = (j, length (utf8_bytes cp) - j)"
    using assms by (intro held_back_partial char_shape_bytes)
  have d: "utf8_decode (concat (map utf8_bytes cps)) = concat (map code_units cps)"
    using assms(1) by (rule utf8_decode_scalars)
  have n: "take j (utf8_bytes cp) \<noteq> []" using assms(3,4) by (cases "utf8_bytes cp"; cases j) simp_all
  have l: "min (length (utf8_bytes cp)) j = j" using assms(4) by simp
  show ?thesis unfolding utf8_write_def utf8_decoder_init_def
    using n by (simp add: h d l)
qed

lemma utf8_write_finish:
  assumes "scalar cp" "0 < j" "j < length (utf8_bytes cp)"
  shows "utf8_write \<lparr>held = take j (utf8_bytes cp), missing = length (utf8_bytes cp) - j\<rparr>
           (drop j (utf8_bytes cp) @ rest) =
         (code_units cp @ fst (utf8_write utf8_decoder_init rest), snd (utf8_write utf8_decoder_init rest))"
proof -
  define c where "c = utf8_bytes cp"
  have sh: "char_shape c" unfolding c_def using assms(1) by (rule char_shape_bytes)
  from sh assms(2,3) obtain l conts where c: "c = l # conts" "list_all is_continuation conts"
    unfolding c_def[symmetric] by (elim char_shape_multi) simp_all
  define q where "q = drop j c"
  have q: "q = drop (j - 1) conts" using assms(2) c(1) by (cases j) (simp_all add: q_def)
  have aq: "list_all is_continuation q" using c(2) unfolding q list_all_iff by (meson in_set_dropD)
  have lq: "length q = length c - j" by (simp add: q_def)
  have w: "take (length c - j) (q @ rest) = q" using lq by simp
  have tw: "takeWhile is_continuation q = q" using aq by (simp add: list_all_iff)
  have pq: "take j c @ q = c" by (simp add: q_def)
  have d: "utf8_decode c = code_units cp" unfolding c_def using assms(1) by (rule utf8_decode_scalar)
  have m: "length c - j \<noteq> 0" using assms(3) by (simp add: c_def)
  show ?thesis unfolding c_def[symmetric] q_def[symmetric] utf8_write_def[of _ "q @ rest"] Let_def
    by (simp only: utf8_decoder.simps w tw lq m if_False simp_thms if_True take_all drop_all
          append_take_drop_id)
       (simp add: lq pq d utf8_write_def utf8_decoder_init_def split: prod.splits)
qed

lemma utf8_bytes_nonempty: "utf8_bytes cp \<noteq> []"
  by (simp add: utf8_bytes_def)

lemma split_chars:
  "n \<le> length (concat (map utf8_bytes cps)) \<Longrightarrow>
   \<exists>cps1 cps2.
     (take n (concat (map utf8_bytes cps)) = concat (map utf8_bytes cps1) \<and>
      drop n (concat (map utf8_bytes cps)) = concat (map utf8_bytes cps2) \<and>
      cps = cps1 @ cps2) \<or>
     (\<exists>cp j. 0 < j \<and> j < length (utf8_bytes cp) \<and>
      take n (concat (map utf8_bytes cps)) = concat (map utf8_bytes cps1) @ take j (utf8_bytes cp) \<and>
      drop n (concat (map utf8_bytes cps)) = drop j (utf8_bytes cp) @ concat (map utf8_bytes cps2) \<and>
      cps = cps1 @ cp # cps2)"
proof (induction cps arbitrary: n)
  case Nil
  then show ?case by simp
next
  case (Cons cp cps)
  define c where "c = utf8_bytes cp"
  define r where "r = concat (map utf8_bytes cps)"
  have bs: "concat (map utf8_bytes (cp # cps)) = c @ r" by (simp add: c_def r_def)
  consider "n = 0" | "0 < n" "n < length c" | "length c \<le> n" by linarith
  then show ?case
  proof cases
    case 1
    then show ?thesis by (intro exI[of _ "[]"] exI[of _ "cp # cps"]) simp
  next
    case 2
    then have "0 < n \<and> n < length (utf8_bytes cp) \<and>
      take n (concat (map utf8_bytes (cp # cps))) = concat (map utf8_bytes []) @ take n (utf8_bytes cp) \<and>
      drop n (concat (map utf8_bytes (cp # cps))) = drop n (utf8_bytes cp) @ concat (map utf8_bytes cps) \<and>
      cp # cps = [] @ cp # cps"
      by (simp add: c_def)
    then show ?thesis by blast
  next
    case 3
    with Cons.prems have "n - length c \<le> length (concat (map utf8_bytes cps))"
      unfolding bs r_def by simp
    from Cons.IH[OF this] obtain cps1 cps2 where ih:
      "(take (n - length c) r = concat (map utf8_bytes cps1) \<and>
        drop (n - length c) r = concat (map utf8_bytes cps2) \<and> cps = cps1 @ cps2) \<or>
       (\<exists>cp' j. 0 < j \<and> j < length (utf8_bytes cp') \<and>
        take (n - length c) r = concat (map utf8_bytes cps1) @ take j (utf8_bytes cp') \<and>
        drop (n - length c) r = drop j (utf8_bytes cp') @ concat (map utf8_bytes cps2) \<and>
        cps = cps1 @ cp' # cps2)"
      unfolding r_def by blast
    have t: "take n (c @ r) = c @ take (n - length c) r" "drop n (c @ r) = drop (n - length c) r"
      using 3 by simp_all
    from ih show ?thesis unfolding bs t
      by (intro exI[of _ "cp # cps1"] exI[of _ cps2]) (auto simp: c_def)
  qed
qed

lemma utf8_end_complete:
  "\<forall>cp\<in>set cps. scalar cp \<Longrightarrow>
   utf8_end utf8_decoder_init (concat (map utf8_bytes cps)) = concat (map code_units cps)"
  by (simp add: utf8_end_def utf8_write_complete) (simp add: utf8_decoder_init_def)

lemma utf8_write_end_chars:
  assumes "\<forall>cp\<in>set cps. scalar cp"
  shows "fst (utf8_write utf8_decoder_init (take n (concat (map utf8_bytes cps)))) @
         utf8_end (snd (utf8_write utf8_decoder_init (take n (concat (map utf8_bytes cps)))))
           (drop n (concat (map utf8_bytes cps))) = concat (map code_units cps)"
proof -
  define bs where "bs = concat (map utf8_bytes cps)"
  define n' where "n' = min n (length bs)"
  have n': "take n bs = take n' bs" "drop n bs = drop n' bs" "n' \<le> length bs"
    by (simp_all add: n'_def min_def)
  from split_chars[of n' cps] n'(3) obtain cps1 cps2 where
    "(take n' bs = concat (map utf8_bytes cps1) \<and> drop n' bs = concat (map utf8_bytes cps2) \<and>
      cps = cps1 @ cps2) \<or>
     (\<exists>cp j. 0 < j \<and> j < length (utf8_bytes cp) \<and>
      take n' bs = concat (map utf8_bytes cps1) @ take j (utf8_bytes cp) \<and>
      drop n' bs = drop j (utf8_bytes cp) @ concat (map utf8_bytes cps2) \<and>
      cps = cps1 @ cp # cps2)"
    unfolding bs_def by blast
  then show ?thesis unfolding bs_def[symmetric] n'(1,2)
  proof
    assume a: "take n' bs = concat (map utf8_bytes cps1) \<and> drop n' bs = concat (map utf8_bytes cps2) \<and>
      cps = cps1 @ cps2"
    with assms have s: "\<forall>cp\<in>set cps1. scalar cp" "\<forall>cp\<in>set cps2. scalar cp" by auto
    from a show "fst (utf8_write utf8_decoder_init (take n' bs)) @
         utf8_end (snd (utf8_write utf8_decoder_init (take n' bs))) (drop n' bs) = concat (map code_units cps)"
      by (simp add: utf8_write_complete[OF s(1)] utf8_end_complete[OF s(2)])
  next
    assume "\<exists>cp j. 0 < j \<and> j < length (utf8_bytes cp) \<and>
      take n' bs = concat (map utf8_bytes cps1) @ take j (utf8_bytes cp) \<and>
      drop n' bs = drop j (utf8_bytes cp) @ concat (map utf8_bytes cps2) \<and>
      cps = cps1 @ cp # cps2"
    then obtain cp j where a: "0 < j" "j < length (utf8_bytes cp)"
      "take n' bs = concat (map utf8_bytes cps1) @ take j (utf8_bytes cp)"
      "drop n' bs = drop j (utf8_bytes cp) @ concat (map utf8_bytes cps2)"
      "cps = cps1 @ cp # cps2" by blast
    with assms have s: "\<forall>cp\<in>set cps1. scalar cp" "\<forall>cp\<in>set cps2. scalar cp" "scalar cp" by auto
    have e: "utf8_end \<lparr>held = take j (utf8_bytes cp), missing = length (utf8_bytes cp) - j\<rparr>
               (drop j (utf8_bytes cp) @ concat (map utf8_bytes cps2)) =
             code_units cp @ concat (map code_units cps2)"
      unfolding utf8_end_def utf8_write_finish[OF s(3) a(1,2)] utf8_write_complete[OF s(2)]
      by (simp add: utf8_decoder_init_def)
    show "fst (utf8_write utf8_decoder_init (take n' bs)) @
         utf8_end (snd (utf8_write utf8_decoder_init (take n' bs))) (drop n' bs) = concat (map code_units cps)"
      unfolding a(3,4) utf8_write_partial[OF s(1,3) a(1,2)] fst_conv snd_conv e
      by (simp add: a(5))
  qed
qed

lemma utf8_write_end_encode:
  "fst (utf8_write utf8_decoder_init (take n (utf8_encode s))) @
   utf8_end (snd (utf8_write utf8_decoder_init (take n (utf8_encode s)))) (drop n (utf8_encode s)) =
   utf8_decode (utf8_encode s)"
  unfolding utf8_encode_code_points
  by (simp only: utf8_write_end_chars[OF code_points_scalar] utf8_decode_scalars[OF code_points_scalar])

section \<open>Cipher block chaining and padding round trips\<close>

lemma xor_bytes_cancel: "length a = length b \<Longrightarrow> xor_bytes (xor_bytes a b) b = a"
  unfolding xor_bytes_def
  by (induction a b rule: list_induct2) (simp_all add: xor.assoc)

lemma length_xor_bytes: "length (xor_bytes a b) = min (length a) (length b)"
  by (simp add: xor_bytes_def)

lemma cbc_encrypt_lengths:
  assumes "block_cipher prims" "\<forall>p\<in>set ps. length p = 16" "length prev = 16"
    and "length k = 16 \<or> length k = 24 \<or> length k = 32"
  shows "\<forall>c\<in>set (cbc_encrypt (aes_encrypt_block prims k) prev ps). length c = 16"
  using assms(2,3)
proof (induction ps arbitrary: prev)
  case Nil
  show ?case by simp
next
  case (Cons p ps)
  have l: "length (aes_encrypt_block prims k (xor_bytes p prev)) = 16"
    using assms(1,4) Cons.prems by (simp add: block_cipher_def length_xor_bytes)
  show ?case using Cons l by (simp add: Let_def)
qed

lemma length_cbc_encrypt: "length (cbc_encrypt e prev ps) = length ps"
  by (induction ps arbitrary: prev) (simp_all add: Let_def)

lemma cbc_decrypt_encrypt:
  assumes "block_cipher prims" "\<forall>p\<in>set ps. length p = 16" "length prev = 16"
    and "length k = 16 \<or> length k = 24 \<or> length k = 32"
  shows "cbc_decrypt (aes_decrypt_block prims k) prev (cbc_encrypt (aes_encrypt_block prims k) prev ps) = ps"
  using assms(2,3)
proof (induction ps arbitrary: prev)
  case Nil
  show ?case by simp
next
  case (Cons p ps)
  have lx: "length (xor_bytes p prev) = 16" using Cons.prems by (simp add: length_xor_bytes)
  have l: "length (aes_encrypt_block prims k (xor_bytes p prev)) = 16"
    and d: "aes_decrypt_block prims k (aes_encrypt_block prims k (xor_bytes p prev)) = xor_bytes p prev"
    using assms(1,4) lx by (simp_all add: block_cipher_def)
  have "xor_bytes (xor_bytes p prev) prev = p" using Cons.prems by (simp add: xor_bytes_cancel)
  then show ?case using Cons l d by (simp add: Let_def)
qed

lemma blocks_Nil: "length bs < 16 \<Longrightarrow> blocks bs = []"
  by (simp add: blocks_def)

lemma blocks_Cons: "length b = 16 \<Longrightarrow> blocks (b @ bs) = b # blocks bs"
proof -
  assume l: "length b = 16"
  have n: "length (b @ bs) div 16 = Suc (length bs div 16)" using l by simp
  have "[0..<Suc (length bs div 16)] = 0 # map Suc [0..<length bs div 16]"
    by (simp add: upt_conv_Cons map_Suc_upt del: upt_Suc)
  then show ?thesis unfolding blocks_def n using l by (simp add: comp_def del: upt_Suc)
qed

lemma blocks_concat:
  "\<forall>b\<in>set bl. length b = 16 \<Longrightarrow> blocks (concat bl @ tail) = bl @ blocks tail"
  by (induction bl) (simp_all add: blocks_Cons)

lemma length_concat16: "\<forall>b\<in>set bl. length b = 16 \<Longrightarrow> length (concat bl) = 16 * length bl"
  by (induction bl) simp_all

lemma length_blocks: "length (blocks bs) = length bs div 16"
  by (simp add: blocks_def)

lemma blocks_length16: "\<forall>b\<in>set (blocks bs). length b = 16"
proof -
  have "16 * i + 16 \<le> length bs" if "i < length bs div 16" for i
  proof -
    from that have "Suc i \<le> length bs div 16" by simp
    then have "Suc i * 16 \<le> length bs div 16 * 16" by (rule mult_le_mono1)
    also have "\<dots> \<le> length bs" by simp
    finally show ?thesis by simp
  qed
  then show ?thesis by (auto simp: blocks_def)
qed

lemma concat_blocks: "concat (blocks bs) @ remainder bs = bs"
proof (induction "length bs div 16" arbitrary: bs)
  case 0
  then show ?case by (simp add: blocks_def remainder_def)
next
  case (Suc n)
  then have l: "16 \<le> length bs" by (metis Zero_not_Suc div_less not_le_imp_less)
  define b where "b = take 16 bs"
  define r where "r = drop 16 bs"
  have bs: "bs = b @ r" and lb: "length b = 16" using l by (simp_all add: b_def r_def)
  have "length bs = 16 + length r" using l by (simp add: r_def)
  with Suc(2) have n: "n = length r div 16" by simp
  have d: "(16 + length r) div 16 = Suc (length r div 16)" by simp
  have rem: "remainder (b @ r) = remainder r"
    using lb by (simp add: remainder_def d)
  show ?case using Suc(1)[OF n] lb by (simp add: bs blocks_Cons rem)
qed

lemma length_remainder: "length (remainder bs) < 16"
  by (simp add: remainder_def)

lemma pkcs7_pad_length: "length tail < 16 \<Longrightarrow> length (pkcs7_pad tail) = 16"
  by (simp add: pkcs7_pad_def)

lemma pkcs7_unpad_pad: "length tail < 16 \<Longrightarrow> pkcs7_unpad (pkcs7_pad tail) = Some tail"
proof -
  assume l: "length tail < 16"
  define n where "n = 16 - length tail"
  have n: "0 < n" "n \<le> 16" "length tail + n = 16" using l by (simp_all add: n_def)
  have u: "unat (of_nat n :: byte) = n" using n by (intro unat_of_nat8) simp
  have p: "pkcs7_pad tail = tail @ replicate n (of_nat n)" by (simp add: pkcs7_pad_def n_def)
  have la: "last (tail @ replicate n (of_nat n :: byte)) = of_nat n" using n by simp
  show ?thesis
    unfolding p pkcs7_unpad_def Let_def la u using n by (simp add: list_all_iff u)
qed

section \<open>Running the modules on the providers\<close>

subsection \<open>Evaluating a run\<close>

lemma bind_ret: "bind (ret x) f = f x"
  by (simp add: bind_def ret_def split: prod.splits)

lemma bind_throw: "bind (throw e) f = throw e"
  by (simp add: bind_def throw_def)

lemma bind_invoke_Inl: "bind (invoke p (Inl e)) f = ([Invoke p], Inl e)"
  by (simp add: bind_def invoke_def)

lemma bind_invoke_Inr: "bind (invoke p (Inr x)) f = (Invoke p # fst (f x), snd (f x))"
  by (simp add: bind_def invoke_def split: prod.splits)

lemma bind_emit: "bind (emit s) f = (Emit s # fst (f ()), snd (f ()))"
  by (simp add: bind_def emit_def split: prod.splits)

lemma member_Some: "member (Some p) n sel = ret (sel p)"
  by (simp add: member_def)

lemma member_None: "member None n sel = throw (TypeError_undefined n)"
  by (simp add: member_def)

lemma call_Some: "call p n (Some f) app = invoke p (app f)"
  by (simp add: call_def)

lemma call_None: "call p n None app = throw (TypeError_not_a_function n)"
  by (simp add: call_def)

lemma fst_ret: "fst (ret x) = []" and snd_ret: "snd (ret x) = Inr x"
  by (simp_all add: ret_def)

lemma fst_throw: "fst (throw e) = []" and snd_throw: "snd (throw e) = Inl e"
  by (simp_all add: throw_def)

lemmas run_simps = bind_ret bind_throw bind_invoke_Inl bind_invoke_Inr bind_emit member_Some
  member_None call_Some call_None fst_ret snd_ret fst_throw snd_throw

subsection \<open>AES-CBC over whole messages\<close>

lemma chain_after_Cons: "chain_after prev (c # cs) = chain_after c cs"
  by (simp add: chain_after_def)

lemma cbc_decrypt_snoc:
  "cbc_decrypt d prev (cs @ [c]) = cbc_decrypt d prev cs @ [xor_bytes (d c) (chain_after prev cs)]"
  by (induction cs arbitrary: prev) (simp_all add: chain_after_Cons, simp add: chain_after_def)

lemma cbc_encrypt_snoc:
  "cbc_encrypt e prev (ps @ [p]) =
     cbc_encrypt e prev ps @ [e (xor_bytes p (chain_after prev (cbc_encrypt e prev ps)))]"
  by (induction ps arbitrary: prev) (simp_all add: chain_after_Cons Let_def, simp add: chain_after_def)

lemma aes_cbc_encrypt_blocks:
  "aes_cbc_encrypt prims key iv plain =
     concat (cbc_encrypt (aes_encrypt_block prims key) iv (blocks plain @ [pkcs7_pad (remainder plain)]))"
  by (simp add: aes_cbc_encrypt_def cbc_encrypt_snoc Let_def)

lemma padded_blocks16: "\<forall>b\<in>set (blocks plain @ [pkcs7_pad (remainder plain)]). length b = 16"
  using blocks_length16[of plain] by (simp add: pkcs7_pad_length length_remainder)

lemma blocks_aes_cbc_encrypt:
  assumes "block_cipher prims" "length iv = 16"
    and "length key = 16 \<or> length key = 24 \<or> length key = 32"
  shows "blocks (aes_cbc_encrypt prims key iv plain) =
     cbc_encrypt (aes_encrypt_block prims key) iv (blocks plain @ [pkcs7_pad (remainder plain)])"
proof -
  have "\<forall>c\<in>set (cbc_encrypt (aes_encrypt_block prims key) iv (blocks plain @ [pkcs7_pad (remainder plain)])). length c = 16"
    by (rule cbc_encrypt_lengths[OF assms(1) padded_blocks16 assms(2,3)])
  from blocks_concat[OF this, of "[]"] show ?thesis
    by (simp add: aes_cbc_encrypt_blocks blocks_Nil)
qed

lemma length_aes_cbc_encrypt:
  assumes "block_cipher prims" "length iv = 16"
    and "length key = 16 \<or> length key = 24 \<or> length key = 32"
  shows "length (aes_cbc_encrypt prims key iv plain) = 16 * (length plain div 16 + 1)"
proof -
  have "\<forall>c\<in>set (cbc_encrypt (aes_encrypt_block prims key) iv (blocks plain @ [pkcs7_pad (remainder plain)])). length c = 16"
    by (rule cbc_encrypt_lengths[OF assms(1) padded_blocks16 assms(2,3)])
  from length_concat16[OF this] show ?thesis
    by (simp add: aes_cbc_encrypt_blocks length_cbc_encrypt length_blocks)
qed

lemma aes_cbc_decrypt_encrypt:
  assumes "block_cipher prims" "length iv = 16"
    and "length key = 16 \<or> length key = 24 \<or> length key = 32"
  shows "aes_cbc_decrypt prims key iv (aes_cbc_encrypt prims key iv plain) = Some plain"
proof -
  let ?ps = "blocks plain @ [pkcs7_pad (remainder plain)]"
  let ?ct = "aes_cbc_encrypt prims key iv plain"
  have len: "length ?ct = 16 * (length plain div 16 + 1)"
    using assms by (rule length_aes_cbc_encrypt)
  then have ne: "?ct \<noteq> []" and m: "length ?ct mod 16 = 0" by auto
  have d: "cbc_decrypt (aes_decrypt_block prims key) iv (blocks ?ct) = ?ps"
    using assms padded_blocks16 by (simp add: blocks_aes_cbc_encrypt cbc_decrypt_encrypt)
  show ?thesis
    unfolding aes_cbc_decrypt_def Let_def d using ne m
    by (simp add: pkcs7_unpad_pad length_remainder concat_blocks)
qed

subsection \<open>\<^verbatim>\<open>nativeEncryptText\<close> on Node's \<^verbatim>\<open>crypto\<close>\<close>

lemma diff_mod3: "(n - n mod 3) mod 3 = (0::nat)"
  by (simp add: minus_mod_eq_mult_div)

lemma base64_write_end:
  "fst (base64_write [] xs) @ base64_end (snd (base64_write [] xs)) ys = base64_encode (xs @ ys)"
proof -
  define n where "n = length xs - length xs mod 3"
  have "n \<le> length xs" by (simp add: n_def)
  then have "length (take n xs) = n" by simp
  then have l: "length (take n xs) mod 3 = 0" by (simp add: n_def diff_mod3)
  have e: "xs @ ys = take n xs @ (drop n xs @ ys)"
    by (simp add: append_assoc[symmetric] del: append_assoc)
  have "base64_encode (xs @ ys) = base64_encode (take n xs) @ base64_encode (drop n xs @ ys)"
    by (subst e) (rule base64_encode_append[OF l])
  then show ?thesis
    by (simp add: base64_write_def base64_end_def Let_def n_def[symmetric])
qed

lemma native_encrypt_run:
  assumes "length (base64_decode key) = 32" "length (base64_decode ivv) = 16"
  shows "nativeEncryptText (Some (node_crypto prims)) key ivv text =
     (let k = base64_decode key; iv = base64_decode ivv; plain = utf8_encode text;
          cs = cbc_encrypt (aes_encrypt_block prims k) iv (blocks plain);
          c_last = aes_encrypt_block prims k (xor_bytes (pkcs7_pad (remainder plain)) (chain_after iv cs));
          w = base64_write [] (concat cs)
      in ([Invoke CreateCipheriv, Invoke CipherUpdate, Emit (fst w), Invoke CipherFinal,
           Emit (base64_end (snd w) c_last)], Inr ()))"
proof -
  have t: "take (length (utf8_encode text) div 16) (blocks (utf8_encode text)) = blocks (utf8_encode text)"
    by (simp add: length_blocks)
  show ?thesis
    using assms
    by (simp add: nativeEncryptText_def node_crypto_def node_create_def cbc_key_length_def
        node_update_def node_final_def get_decoder_def decoder_write_def decoder_end_def
        decode_input_def Let_def run_simps t remainder_def split: prod.splits)
qed

lemma native_encrypt_text:
  assumes "length (base64_decode key) = 32" "length (base64_decode ivv) = 16"
  shows "emitted_text (nativeEncryptText (Some (node_crypto prims)) key ivv text) =
           base64_encode (aes_cbc_encrypt prims (base64_decode key) (base64_decode ivv) (utf8_encode text))"
    and "snd (nativeEncryptText (Some (node_crypto prims)) key ivv text) = Inr ()"
  by (simp_all add: native_encrypt_run[OF assms] emitted_text_def Let_def base64_write_end aes_cbc_encrypt_def)

subsection \<open>\<^verbatim>\<open>nativeDecryptText\<close> on Node's \<^verbatim>\<open>crypto\<close>\<close>

lemma node_update_decipher:
  "node_update prims \<lparr>nc_key = k, nc_chain = iv, nc_buffer = [], nc_decipher = True,
       nc_decoder = NoDecoder\<rparr> text Base64 Utf8 =
     (let ct = base64_decode text;
          n = (if length ct mod 16 = 0 then length ct div 16 - 1 else length ct div 16);
          now = take n (blocks ct);
          w = utf8_write utf8_decoder_init (concat (cbc_decrypt (aes_decrypt_block prims k) iv now))
      in Inr (fst w, \<lparr>nc_key = k, nc_chain = chain_after iv now, nc_buffer = drop (16 * n) ct,
                       nc_decipher = True, nc_decoder = Utf8Decoder (snd w)\<rparr>))"
  by (simp add: node_update_def get_decoder_def decoder_write_def decode_input_def
      Let_def split: prod.splits)

lemma node_final_decipher:
  "node_final prims \<lparr>nc_key = k, nc_chain = chain, nc_buffer = lastb, nc_decipher = True,
       nc_decoder = Utf8Decoder s\<rparr> Utf8 =
     (if length lastb \<noteq> 16 then Inl (Provider WrongFinalBlockLength)
      else case pkcs7_unpad (xor_bytes (aes_decrypt_block prims k lastb) chain) of
             None \<Rightarrow> Inl (Provider BadDecrypt)
           | Some tail \<Rightarrow> Inr (utf8_end s tail))"
  by (simp add: node_final_def get_decoder_def decoder_end_def split: option.split)

lemma native_decrypt_run:
  assumes "length (base64_decode key) = 32" "length (base64_decode ivv) = 16"
  shows "nativeDecryptText (Some (node_crypto prims)) key ivv text =
     (let k = base64_decode key; iv = base64_decode ivv; ct = base64_decode text;
          n = (if length ct mod 16 = 0 then length ct div 16 - 1 else length ct div 16);
          now = take n (blocks ct); lastb = drop (16 * n) ct;
          w = utf8_write utf8_decoder_init (concat (cbc_decrypt (aes_decrypt_block prims k) iv now))
      in if length lastb \<noteq> 16 then
           ([Invoke CreateDecipheriv, Invoke CipherUpdate, Emit (fst w), Invoke CipherFinal],
            Inl (Provider WrongFinalBlockLength))
         else case pkcs7_unpad (xor_bytes (aes_decrypt_block prims k lastb) (chain_after iv now)) of
           None \<Rightarrow>
             ([Invoke CreateDecipheriv, Invoke CipherUpdate, Emit (fst w), Invoke CipherFinal],
              Inl (Provider BadDecrypt))
         | Some tail \<Rightarrow>
             ([Invoke CreateDecipheriv, Invoke CipherUpdate, Emit (fst w), Invoke CipherFinal,
               Emit (utf8_end (snd w) tail)], Inr ()))"
proof -
  have c: "node_create prims True ''aes-256-cbc'' (base64_decode key) (base64_decode ivv) =
      Inr \<lparr>cipher_state = \<lparr>nc_key = base64_decode key, nc_chain = base64_decode ivv, nc_buffer = [],
              nc_decipher = True, nc_decoder = NoDecoder\<rparr>,
           update = node_update prims, final = node_final prims\<rparr>"
    using assms by (simp add: node_create_def cbc_key_length_def)
  show ?thesis
    unfolding nativeDecryptText_def node_crypto_def
    by (simp only: run_simps native_crypto.simps option.case c cipher_object.simps
        node_update_decipher Let_def prod.case node_final_decipher)
      (simp add: run_simps split: option.split)
qed

lemma whole_blocks:
  assumes "ct \<noteq> []" "length ct mod 16 = 0"
  shows "blocks ct \<noteq> []"
    and "take (length ct div 16 - 1) (blocks ct) = butlast (blocks ct)"
    and "drop (16 * (length ct div 16 - 1)) ct = last (blocks ct)"
proof -
  from assms(1) have "0 < length ct" by simp
  with assms(2) have "16 \<le> length ct" by (auto simp: mod_eq_0_iff_dvd dest: dvd_imp_le)
  then have pos: "0 < length ct div 16" by (simp add: div_greater_zero_iff)
  then show ne: "blocks ct \<noteq> []" using length_blocks[of ct] by auto
  show "take (length ct div 16 - 1) (blocks ct) = butlast (blocks ct)"
    by (simp add: butlast_conv_take length_blocks)
  have r: "remainder ct = []" using assms(2) by (simp add: remainder_def mod_eq_0_iff_dvd)
  have c: "ct = concat (butlast (blocks ct)) @ last (blocks ct)"
  proof -
    have "ct = concat (blocks ct)" using concat_blocks[of ct] r by simp
    also have "\<dots> = concat (butlast (blocks ct) @ [last (blocks ct)])" using ne by simp
    finally show ?thesis by simp
  qed
  have "\<forall>b\<in>set (butlast (blocks ct)). length b = 16"
    using blocks_length16[of ct] by (meson in_set_butlastD)
  then have l: "length (concat (butlast (blocks ct))) = 16 * (length ct div 16 - 1)"
    by (simp add: length_concat16 length_blocks)
  have "drop (16 * (length ct div 16 - 1)) (concat (butlast (blocks ct)) @ last (blocks ct)) = last (blocks ct)"
    unfolding l[symmetric] by simp
  then show "drop (16 * (length ct div 16 - 1)) ct = last (blocks ct)"
    by (metis c)
qed

lemma native_decrypt_padded:
  assumes "length (base64_decode key) = 32" "length (base64_decode ivv) = 16"
    and "base64_decode text \<noteq> []" "length (base64_decode text) mod 16 = 0"
  shows "nativeDecryptText (Some (node_crypto prims)) key ivv text =
     (let plain = cbc_decrypt (aes_decrypt_block prims (base64_decode key)) (base64_decode ivv)
                    (blocks (base64_decode text));
          w = utf8_write utf8_decoder_init (concat (butlast plain))
      in case pkcs7_unpad (last plain) of
           None \<Rightarrow>
             ([Invoke CreateDecipheriv, Invoke CipherUpdate, Emit (fst w), Invoke CipherFinal],
              Inl (Provider BadDecrypt))
         | Some tail \<Rightarrow>
             ([Invoke CreateDecipheriv, Invoke CipherUpdate, Emit (fst w), Invoke CipherFinal,
               Emit (utf8_end (snd w) tail)], Inr ()))"
proof -
  let ?ct = "base64_decode text"
  let ?d = "aes_decrypt_block prims (base64_decode key)"
  note wb = whole_blocks[OF assms(3,4)]
  have b16: "length (last (blocks ?ct)) = 16"
    using blocks_length16[of ?ct] wb(1) by simp
  have split: "cbc_decrypt ?d (base64_decode ivv) (blocks ?ct) =
      cbc_decrypt ?d (base64_decode ivv) (butlast (blocks ?ct)) @
      [xor_bytes (?d (last (blocks ?ct))) (chain_after (base64_decode ivv) (butlast (blocks ?ct)))]"
    using cbc_decrypt_snoc[of ?d "base64_decode ivv" "butlast (blocks ?ct)" "last (blocks ?ct)"] wb(1)
    by simp
  have n: "(if length ?ct mod 16 = 0 then length ?ct div 16 - 1 else length ?ct div 16) = length ?ct div 16 - 1"
    using assms(4) by simp
  have bl: "butlast (cbc_decrypt ?d (base64_decode ivv) (blocks ?ct)) =
      cbc_decrypt ?d (base64_decode ivv) (butlast (blocks ?ct))"
    and la: "last (cbc_decrypt ?d (base64_decode ivv) (blocks ?ct)) =
      xor_bytes (?d (last (blocks ?ct))) (chain_after (base64_decode ivv) (butlast (blocks ?ct)))"
    by (simp_all add: split)
  show ?thesis
    unfolding native_decrypt_run[OF assms(1,2)] Let_def n wb(2) wb(3) bl la
    by (simp add: b16)
qed

lemma native_decrypt_text:
  assumes "length (base64_decode key) = 32" "length (base64_decode ivv) = 16"
    and "aes_cbc_decrypt prims (base64_decode key) (base64_decode ivv) (base64_decode text) =
           Some (utf8_encode plain)"
  shows "snd (nativeDecryptText (Some (node_crypto prims)) key ivv text) = Inr ()"
    and "emitted_text (nativeDecryptText (Some (node_crypto prims)) key ivv text) =
           utf8_decode (utf8_encode plain)"
proof -
  let ?blocks = "cbc_decrypt (aes_decrypt_block prims (base64_decode key)) (base64_decode ivv)
          (blocks (base64_decode text))"
  from assms(3) have ne: "base64_decode text \<noteq> []" and m: "length (base64_decode text) mod 16 = 0"
    by (auto simp: aes_cbc_decrypt_def split: if_splits)
  from assms(3) obtain tail where
    u: "pkcs7_unpad (last ?blocks) = Some tail"
    and p: "utf8_encode plain = concat (butlast ?blocks) @ tail"
    by (auto simp: aes_cbc_decrypt_def Let_def split: if_splits option.splits)
  define n where "n = length (concat (butlast ?blocks))"
  have t: "concat (butlast ?blocks) = take n (utf8_encode plain)" "tail = drop n (utf8_encode plain)"
    unfolding p n_def by simp_all
  show "snd (nativeDecryptText (Some (node_crypto prims)) key ivv text) = Inr ()"
    by (simp add: native_decrypt_padded[OF assms(1,2) ne m] Let_def u)
  have "emitted_text (nativeDecryptText (Some (node_crypto prims)) key ivv text) =
      fst (utf8_write utf8_decoder_init (concat (butlast ?blocks))) @
      utf8_end (snd (utf8_write utf8_decoder_init (concat (butlast ?blocks)))) tail"
    by (simp add: native_decrypt_padded[OF assms(1,2) ne m] Let_def u emitted_text_def)
  also have "\<dots> = utf8_decode (utf8_encode plain)"
    unfolding t by (rule utf8_write_end_encode)
  finally show "emitted_text (nativeDecryptText (Some (node_crypto prims)) key ivv text) =
           utf8_decode (utf8_encode plain)" .
qed

text \<open>
  A key or a salt of the wrong length is refused by \<^verbatim>\<open>createCipheriv\<close> and
  \<^verbatim>\<open>createDecipheriv\<close>, and \<^verbatim>\<open>bad decrypt\<close> is the error of the padding check alone.
\<close>

lemma native_wrong_lengths:
  assumes "length (base64_decode key) \<noteq> 32 \<or> length (base64_decode ivv) \<noteq> 16"
  shows "nativeEncryptText (Some (node_crypto prims)) key ivv text =
           ([Invoke CreateCipheriv],
            Inl (Provider (if length (base64_decode ivv) \<noteq> 16 then InvalidIV else InvalidKeyLength)))"
    and "nativeDecryptText (Some (node_crypto prims)) key ivv text =
           ([Invoke CreateDecipheriv],
            Inl (Provider (if length (base64_decode ivv) \<noteq> 16 then InvalidIV else InvalidKeyLength)))"
proof -
  have c: "node_create prims d ''aes-256-cbc'' (base64_decode key) (base64_decode ivv) =
      Inl (Provider (if length (base64_decode ivv) \<noteq> 16 then InvalidIV else InvalidKeyLength))" for d
    using assms by (auto simp: node_create_def cbc_key_length_def)
  show "nativeEncryptText (Some (node_crypto prims)) key ivv text =
           ([Invoke CreateCipheriv],
            Inl (Provider (if length (base64_decode ivv) \<noteq> 16 then InvalidIV else InvalidKeyLength)))"
    unfolding nativeEncryptText_def node_crypto_def
    by (simp only: run_simps native_crypto.simps option.case c)
  show "nativeDecryptText (Some (node_crypto prims)) key ivv text =
           ([Invoke CreateDecipheriv],
            Inl (Provider (if length (base64_decode ivv) \<noteq> 16 then InvalidIV else InvalidKeyLength)))"
    unfolding nativeDecryptText_def node_crypto_def
    by (simp only: run_simps native_crypto.simps option.case c)
qed

lemma native_decrypt_not_whole:
  assumes "length (base64_decode key) = 32" "length (base64_decode ivv) = 16"
    and "base64_decode text = [] \<or> length (base64_decode text) mod 16 \<noteq> 0"
  shows "snd (nativeDecryptText (Some (node_crypto prims)) key ivv text) =
           Inl (Provider WrongFinalBlockLength)"
proof -
  let ?ct = "base64_decode text"
  let ?n = "if length ?ct mod 16 = 0 then length ?ct div 16 - 1 else length ?ct div 16"
  have "length (drop (16 * ?n) ?ct) \<noteq> 16"
  proof (cases "?ct = []")
    case True
    then show ?thesis by simp
  next
    case False
    with assms(3) have m: "length ?ct mod 16 \<noteq> 0" by simp
    have "length ?ct - 16 * (length ?ct div 16) = length ?ct mod 16"
      by (simp add: minus_mult_div_eq_mod)
    moreover have "length ?ct mod 16 < 16" by simp
    ultimately show ?thesis using m by simp
  qed
  then show ?thesis
    unfolding native_decrypt_run[OF assms(1,2)] Let_def by simp
qed

lemma native_bad_decrypt_only:
  assumes "snd (nativeDecryptText (Some (node_crypto prims)) key ivv text) = Inl (Provider BadDecrypt)"
  shows "length (base64_decode key) = 32 \<and> length (base64_decode ivv) = 16 \<and>
         padding_fails prims (base64_decode key) (base64_decode ivv) (base64_decode text)"
proof -
  have l: "length (base64_decode key) = 32 \<and> length (base64_decode ivv) = 16"
  proof (rule ccontr)
    assume "\<not> (length (base64_decode key) = 32 \<and> length (base64_decode ivv) = 16)"
    then have "length (base64_decode key) \<noteq> 32 \<or> length (base64_decode ivv) \<noteq> 16" by simp
    from native_wrong_lengths(2)[OF this, of prims "text"] assms show False
      by (simp split: if_splits)
  qed
  then have k: "length (base64_decode key) = 32" and i: "length (base64_decode ivv) = 16" by simp_all
  have w: "base64_decode text \<noteq> [] \<and> length (base64_decode text) mod 16 = 0"
  proof (rule ccontr)
    assume "\<not> (base64_decode text \<noteq> [] \<and> length (base64_decode text) mod 16 = 0)"
    then have "base64_decode text = [] \<or> length (base64_decode text) mod 16 \<noteq> 0" by simp
    from native_decrypt_not_whole[OF k i this, of prims] assms show False by simp
  qed
  then have ne: "base64_decode text \<noteq> []" and m: "length (base64_decode text) mod 16 = 0" by simp_all
  have "pkcs7_unpad (last (cbc_decrypt (aes_decrypt_block prims (base64_decode key))
              (base64_decode ivv) (blocks (base64_decode text)))) = None"
    using assms unfolding native_decrypt_padded[OF k i ne m] Let_def
    by (simp split: option.splits)
  with ne m l show ?thesis by (simp add: padding_fails_def)
qed

subsection \<open>The browser module on Web Crypto, and key derivation\<close>

lemma browser_decrypt_run:
  assumes "length (base64_decode key) = 16 \<or> length (base64_decode key) = 24 \<or> length (base64_decode key) = 32"
    and "length (base64_decode ivv) = 16"
  shows "browserDecryptText (Some (web_crypto prims)) key ivv text =
     (case aes_cbc_decrypt prims (base64_decode key) (base64_decode ivv) (base64_decode text) of
        None \<Rightarrow> ([Invoke ImportKey, Invoke SubtleDecrypt], Inl (Provider OperationError))
      | Some plain \<Rightarrow>
          ([Invoke ImportKey, Invoke SubtleDecrypt, Emit (text_decoder_decode plain)], Inr ()))"
  using assms
  by (auto simp add: browserDecryptText_def importKey_guard_def subtle_member_def web_crypto_def
      web_importKey_def web_decrypt_def Let_def run_simps split: option.splits)

lemma native_key_run:
  "nativeGenerateKey (Some (node_crypto prims)) password ivv =
     ([Invoke Pbkdf2Sync],
      Inr (base64_encode (pbkdf2_hmac prims SHA256 (utf8_encode password) (base64_decode ivv) 100000 32)))"
  by (simp add: nativeGenerateKey_def node_crypto_def node_pbkdf2Sync_def node_digest_def Let_def run_simps)

lemma browser_key_run:
  "browserGenerateKey (Some (web_crypto prims)) password ivv =
     ([Invoke ImportKey, Invoke DeriveBits],
      Inr (base64_encode (pbkdf2_hmac prims SHA256 (utf8_encode password) (base64_decode ivv) 100000 32)))"
  by (simp add: browserGenerateKey_def importKey_guard_def subtle_member_def web_crypto_def
      web_importKey_def web_deriveBits_def web_hash_def Let_def run_simps)

subsection \<open>The cipher operations on any provider\<close>


lemma native_decrypt_any_provider:
  "nativeDecryptText (Some \<lparr>randomBytes = rb, pbkdf2Sync = pb, createCipheriv = Some cc,
        createDecipheriv = Some cd\<rparr>) key ivv text =
     (case cd ''aes-256-cbc'' (base64_decode key) (base64_decode ivv) of
        Inl e \<Rightarrow> ([Invoke CreateDecipheriv], Inl e)
      | Inr cipher \<Rightarrow>
          (case update cipher (cipher_state cipher) text Base64 Utf8 of
             Inl e \<Rightarrow> ([Invoke CreateDecipheriv, Invoke CipherUpdate], Inl e)
           | Inr (out, st) \<Rightarrow>
               (case final cipher st Utf8 of
                  Inl e \<Rightarrow>
                    ([Invoke CreateDecipheriv, Invoke CipherUpdate, Emit out, Invoke CipherFinal], Inl e)
                | Inr last_out \<Rightarrow>
                    ([Invoke CreateDecipheriv, Invoke CipherUpdate, Emit out, Invoke CipherFinal,
                      Emit last_out], Inr ()))))"
  by (simp add: nativeDecryptText_def bind_def member_def call_def invoke_def emit_def ret_def
      throw_def split: sum.splits prod.splits)

lemma browser_decrypt_any_provider:
  "browserDecryptText (Some \<lparr>subtle = Some \<lparr>importKey = Some ik, deriveBits = db,
        decrypt = Some dc\<rparr>\<rparr>) key ivv text =
     (case ik ''raw'' (base64_decode key) ''AES-CBC'' False [''decrypt''] of
        Inl e \<Rightarrow> ([Invoke ImportKey], Inl e)
      | Inr importedKey \<Rightarrow>
          (case dc \<lparr>cp_name = ''AES-CBC'', cp_iv = base64_decode ivv\<rparr> importedKey
                  (base64_decode text) of
             Inl e \<Rightarrow> ([Invoke ImportKey, Invoke SubtleDecrypt], Inl e)
           | Inr decryptedText \<Rightarrow>
               ([Invoke ImportKey, Invoke SubtleDecrypt, Emit (text_decoder_decode decryptedText)],
                Inr ())))"
  by (simp add: browserDecryptText_def importKey_guard_def subtle_member_def bind_def member_def
      call_def invoke_def emit_def ret_def throw_def split: sum.splits prod.splits)

subsection \<open>Round trips through the two modules\<close>

text \<open>The stand-in cipher is invertible, so the hypotheses below can be met.\<close>

lemma toy_block_cipher: "block_cipher toy"
proof -
  have "length (toy_encrypt_block k b) = 16 \<and> toy_decrypt_block k (toy_encrypt_block k b) = b"
    if "length b = 16" for k b
  proof -
    have l: "length (take 16 (k @ replicate 16 0)) = 16" by simp
    have "xor_bytes (xor_bytes (rev b) (take 16 (k @ replicate 16 0))) (take 16 (k @ replicate 16 0)) = rev b"
      using that l by (intro xor_bytes_cancel) simp
    then show ?thesis
      using that by (simp add: toy_encrypt_block_def toy_decrypt_block_def length_xor_bytes)
  qed
  then show ?thesis by (simp add: block_cipher_def toy_def)
qed

text \<open>
  Decrypting what \<^verbatim>\<open>nativeEncryptText\<close> emitted gives the plaintext as UTF-8 reads
  it, in either module.
\<close>

lemma native_decrypt_of_encrypt:
  assumes "block_cipher prims" "length (base64_decode key) = 32" "length (base64_decode ivv) = 16"
  shows "snd (nativeEncryptText (Some (node_crypto prims)) key ivv text) = Inr ()"
    and "snd (nativeDecryptText (Some (node_crypto prims)) key ivv
               (emitted_text (nativeEncryptText (Some (node_crypto prims)) key ivv text))) = Inr ()"
    and "emitted_text (nativeDecryptText (Some (node_crypto prims)) key ivv
               (emitted_text (nativeEncryptText (Some (node_crypto prims)) key ivv text)))
           = utf8_decode (utf8_encode text)"
proof -
  let ?ct = "emitted_text (nativeEncryptText (Some (node_crypto prims)) key ivv text)"
  have kl: "length (base64_decode key) = 16 \<or> length (base64_decode key) = 24 \<or> length (base64_decode key) = 32"
    using assms(2) by simp
  have d: "aes_cbc_decrypt prims (base64_decode key) (base64_decode ivv) (base64_decode ?ct)
      = Some (utf8_encode text)"
    by (simp add: native_encrypt_text(1)[OF assms(2,3)] base64_decode_encode
        aes_cbc_decrypt_encrypt[OF assms(1,3) kl])
  show "snd (nativeEncryptText (Some (node_crypto prims)) key ivv text) = Inr ()"
    by (rule native_encrypt_text(2)[OF assms(2,3)])
  show "snd (nativeDecryptText (Some (node_crypto prims)) key ivv ?ct) = Inr ()"
    by (rule native_decrypt_text(1)[OF assms(2,3) d])
  show "emitted_text (nativeDecryptText (Some (node_crypto prims)) key ivv ?ct) = utf8_decode (utf8_encode text)"
    by (rule native_decrypt_text(2)[OF assms(2,3) d])
qed

lemma browser_decrypt_of_native_encrypt:
  assumes "block_cipher prims" "length (base64_decode key) = 32" "length (base64_decode ivv) = 16"
  shows "browserDecryptText (Some (web_crypto prims)) key ivv
           (emitted_text (nativeEncryptText (Some (node_crypto prims)) key ivv text))
         = ([Invoke ImportKey, Invoke SubtleDecrypt, Emit (text_decoder_decode (utf8_encode text))], Inr ())"
proof -
  let ?ct = "emitted_text (nativeEncryptText (Some (node_crypto prims)) key ivv text)"
  have kl: "length (base64_decode key) = 16 \<or> length (base64_decode key) = 24 \<or> length (base64_decode key) = 32"
    using assms(2) by simp
  have d: "aes_cbc_decrypt prims (base64_decode key) (base64_decode ivv) (base64_decode ?ct)
      = Some (utf8_encode text)"
    by (simp add: native_encrypt_text(1)[OF assms(2,3)] base64_decode_encode
        aes_cbc_decrypt_encrypt[OF assms(1,3) kl])
  show ?thesis by (simp add: browser_decrypt_run[OF kl assms(3)] d)
qed

lemma well_formed_sixteen: "well_formed (ascii ''sixteen byte msg'')"
  by (simp add: ascii_def is_high_surrogate_def is_low_surrogate_def)

section \<open>The claims\<close>

text \<open>
  Claim C1, as the code has it. With Node's \<^verbatim>\<open>crypto\<close> over an invertible block
  transformation, a key that decodes to 32 bytes, a salt that decodes to 16 bytes and a
  plaintext that is a well-formed UTF-16 string (every surrogate paired; the empty, the
  16-byte and the many-block plaintext included): \<^verbatim>\<open>nativeEncryptText\<close> succeeds,
  \<^verbatim>\<open>nativeDecryptText\<close> of the concatenated chunks it emitted succeeds with the same
  key and salt, and the chunks that one emits, concatenated, are the plaintext. (The
  plaintext is a JavaScript string read as UTF-8, so an unpaired surrogate comes back
  as U+FFFD: see the counterexample.)
\<close>

theorem native_round_trip:
  assumes "block_cipher prims"
    and "length (base64_decode key) = 32" and "length (base64_decode ivv) = 16"
    and "well_formed text"
  shows "snd (nativeEncryptText (Some (node_crypto prims)) key ivv text) = Inr () \<and>
         snd (nativeDecryptText (Some (node_crypto prims)) key ivv
               (emitted_text (nativeEncryptText (Some (node_crypto prims)) key ivv text))) = Inr () \<and>
         emitted_text (nativeDecryptText (Some (node_crypto prims)) key ivv
               (emitted_text (nativeEncryptText (Some (node_crypto prims)) key ivv text))) = text"
  using native_decrypt_of_encrypt[OF assms(1,2,3), of "text"] assms(4)
  by (simp add: utf8_decode_encode)

theorem native_round_trip_witness:
  "block_cipher toy \<and>
   length (base64_decode (base64_encode (replicate 32 1))) = 32 \<and>
   length (base64_decode (base64_encode (replicate 16 0))) = 16 \<and>
   well_formed (ascii ''sixteen byte msg'') \<and>
   emitted_text (nativeDecryptText (Some (node_crypto toy)) (base64_encode (replicate 32 1))
       (base64_encode (replicate 16 0))
       (emitted_text (nativeEncryptText (Some (node_crypto toy)) (base64_encode (replicate 32 1))
          (base64_encode (replicate 16 0)) (ascii ''sixteen byte msg''))))
     = ascii ''sixteen byte msg''"
proof -
  have k: "length (base64_decode (base64_encode (replicate 32 1))) = 32"
    and i: "length (base64_decode (base64_encode (replicate 16 0))) = 16"
    by (simp_all only: base64_decode_encode length_replicate)
  show ?thesis
    using native_round_trip[OF toy_block_cipher k i well_formed_sixteen]
      toy_block_cipher k i well_formed_sixteen by simp
qed

theorem native_round_trip_counterexample:
  "block_cipher toy \<and>
   length (base64_decode (base64_encode (replicate 32 1))) = 32 \<and>
   length (base64_decode (base64_encode (replicate 16 0))) = 16 \<and>
   emitted_text (nativeDecryptText (Some (node_crypto toy)) (base64_encode (replicate 32 1))
       (base64_encode (replicate 16 0))
       (emitted_text (nativeEncryptText (Some (node_crypto toy)) (base64_encode (replicate 32 1))
          (base64_encode (replicate 16 0)) [0xD800])))
     = [0xFFFD] \<and>
   [0xFFFD] \<noteq> [0xD800 :: code_unit]"
proof -
  have k: "length (base64_decode (base64_encode (replicate 32 1))) = 32"
    and i: "length (base64_decode (base64_encode (replicate 16 0))) = 16"
    by (simp_all only: base64_decode_encode length_replicate)
  have u: "utf8_decode (utf8_encode [0xD800]) = [0xFFFD]"
    by (simp add: utf8_decode_def utf8_bytes_def is_high_surrogate_def is_low_surrogate_def
        utf8_step_def utf8_start_def utf8_init_def utf8_flush_def code_units_def Let_def)
  show ?thesis
    using native_decrypt_of_encrypt(3)[OF toy_block_cipher k i, of "[0xD800]"] toy_block_cipher k i
    by (simp only: u) simp
qed

text \<open>
  Claim C2, as the code has it. The key \<^verbatim>\<open>browserGenerateKey\<close> derives with Web Crypto
  is, for every password and salt, the key \<^verbatim>\<open>nativeGenerateKey\<close> derives with Node's
  \<^verbatim>\<open>crypto\<close>. With an invertible block transformation, a key of 32 bytes, a salt of 16
  bytes and a plaintext that is a well-formed UTF-16 string and does not start with
  U+FEFF, \<^verbatim>\<open>browserDecryptText\<close> of the chunks \<^verbatim>\<open>nativeEncryptText\<close> emitted,
  concatenated, succeeds and hands the plaintext to the callback, once. (An unpaired
  surrogate comes back as U+FFFD, and \<^verbatim>\<open>TextDecoder\<close> drops a leading U+FEFF: see the
  counterexample.)
\<close>

theorem cross_environment:
  assumes "block_cipher prims"
    and "length (base64_decode key) = 32" and "length (base64_decode ivv) = 16"
    and "well_formed text" and "text = [] \<or> hd text \<noteq> 0xFEFF"
  shows "snd (browserGenerateKey (Some (web_crypto prims)) password salt) =
           snd (nativeGenerateKey (Some (node_crypto prims)) password salt) \<and>
         browserDecryptText (Some (web_crypto prims)) key ivv
             (emitted_text (nativeEncryptText (Some (node_crypto prims)) key ivv text))
           = ([Invoke ImportKey, Invoke SubtleDecrypt, Emit text], Inr ())"
  using browser_decrypt_of_native_encrypt[OF assms(1,2,3), of "text"] assms(4,5)
  by (simp add: native_key_run browser_key_run text_decoder_decode_encode)

theorem cross_environment_witness:
  "block_cipher toy \<and>
   length (base64_decode (base64_encode (replicate 32 1))) = 32 \<and>
   length (base64_decode (base64_encode (replicate 16 0))) = 16 \<and>
   well_formed (ascii ''sixteen byte msg'') \<and>
   (ascii ''sixteen byte msg'' = [] \<or> hd (ascii ''sixteen byte msg'') \<noteq> 0xFEFF) \<and>
   snd (browserGenerateKey (Some (web_crypto toy)) (ascii ''correct-horse'') (base64_encode (replicate 16 0))) =
     snd (nativeGenerateKey (Some (node_crypto toy)) (ascii ''correct-horse'') (base64_encode (replicate 16 0))) \<and>
   browserDecryptText (Some (web_crypto toy)) (base64_encode (replicate 32 1))
       (base64_encode (replicate 16 0))
       (emitted_text (nativeEncryptText (Some (node_crypto toy)) (base64_encode (replicate 32 1))
          (base64_encode (replicate 16 0)) (ascii ''sixteen byte msg'')))
     = ([Invoke ImportKey, Invoke SubtleDecrypt, Emit (ascii ''sixteen byte msg'')], Inr ())"
proof -
  have k: "length (base64_decode (base64_encode (replicate 32 1))) = 32"
    and i: "length (base64_decode (base64_encode (replicate 16 0))) = 16"
    by (simp_all only: base64_decode_encode length_replicate)
  have h: "ascii ''sixteen byte msg'' = [] \<or> hd (ascii ''sixteen byte msg'') \<noteq> 0xFEFF"
    by (simp add: ascii_def)
  show ?thesis
    using cross_environment[OF toy_block_cipher k i well_formed_sixteen h,
        of "ascii ''correct-horse''" "base64_encode (replicate 16 0)"]
      toy_block_cipher k i well_formed_sixteen h
    by (simp only: simp_thms)
qed

theorem cross_environment_counterexample:
  "block_cipher toy \<and>
   length (base64_decode (base64_encode (replicate 32 1))) = 32 \<and>
   length (base64_decode (base64_encode (replicate 16 0))) = 16 \<and>
   emitted_text (browserDecryptText (Some (web_crypto toy)) (base64_encode (replicate 32 1))
       (base64_encode (replicate 16 0))
       (emitted_text (nativeEncryptText (Some (node_crypto toy)) (base64_encode (replicate 32 1))
          (base64_encode (replicate 16 0)) [0xD800])))
     = [0xFFFD] \<and>
   emitted_text (browserDecryptText (Some (web_crypto toy)) (base64_encode (replicate 32 1))
       (base64_encode (replicate 16 0))
       (emitted_text (nativeEncryptText (Some (node_crypto toy)) (base64_encode (replicate 32 1))
          (base64_encode (replicate 16 0)) [0xFEFF, 0x41])))
     = [0x41]"
proof -
  have k: "length (base64_decode (base64_encode (replicate 32 1))) = 32"
    and i: "length (base64_decode (base64_encode (replicate 16 0))) = 16"
    by (simp_all only: base64_decode_encode length_replicate)
  have u: "text_decoder_decode (utf8_encode [0xD800]) = [0xFFFD]"
    by (simp add: text_decoder_decode_def utf8_decode_def utf8_bytes_def is_high_surrogate_def
        is_low_surrogate_def utf8_step_def utf8_start_def utf8_init_def utf8_flush_def
        code_units_def Let_def)
  have b: "text_decoder_decode (utf8_encode [0xFEFF, 0x41]) = [0x41]"
    by (simp add: text_decoder_decode_def utf8_decode_def utf8_bytes_def is_high_surrogate_def
        is_low_surrogate_def utf8_step_def utf8_start_def utf8_init_def utf8_flush_def
        code_units_def Let_def)
  note c = browser_decrypt_of_native_encrypt[OF toy_block_cipher k i]
  show ?thesis
    unfolding c u b using toy_block_cipher k i by (simp add: emitted_text_def)
qed

text \<open>
  Claim C3. In both modules and for every provider handle, password and salt, the result
  of the fingerprint operation is the result of the key derivation applied twice: if the
  first derivation fails so does the fingerprint, with that error, and otherwise the
  fingerprint is the derivation of the first key's base64 text, as the password, with the
  same salt. With Node's \<^verbatim>\<open>crypto\<close> that is PBKDF2 over the UTF-8 bytes of the base64 of
  PBKDF2 over the password, and Web Crypto gives the same fingerprint.
\<close>

theorem fingerprint_is_double_derivation:
  "snd (nativeGenerateHash nativeCrypto password ivv) =
     (case snd (nativeGenerateKey nativeCrypto password ivv) of
        Inl e \<Rightarrow> Inl e
      | Inr key \<Rightarrow> snd (nativeGenerateKey nativeCrypto key ivv)) \<and>
   snd (browserGenerateHash browserCrypto password ivv) =
     (case snd (browserGenerateKey browserCrypto password ivv) of
        Inl e \<Rightarrow> Inl e
      | Inr key \<Rightarrow> snd (browserGenerateKey browserCrypto key ivv)) \<and>
   snd (nativeGenerateHash (Some (node_crypto prims)) password ivv) =
     Inr (base64_encode (pbkdf2_hmac prims SHA256
            (utf8_encode (base64_encode (pbkdf2_hmac prims SHA256 (utf8_encode password)
               (base64_decode ivv) 100000 32)))
            (base64_decode ivv) 100000 32)) \<and>
   snd (browserGenerateHash (Some (web_crypto prims)) password ivv) =
     snd (nativeGenerateHash (Some (node_crypto prims)) password ivv)"
proof -
  have b: "snd (bind m f) = (case snd m of Inl e \<Rightarrow> Inl e | Inr x \<Rightarrow> snd (f x))"
    for m :: "js_string run" and f :: "js_string \<Rightarrow> js_string run"
    by (cases m) (auto simp: bind_def split: sum.splits prod.splits)
  show ?thesis
    by (simp add: nativeGenerateHash_def browserGenerateHash_def b native_key_run browser_key_run)
qed

text \<open>
  Claim C4. \<^verbatim>\<open>nativeGenerateKey\<close> calls the provider's \<^verbatim>\<open>pbkdf2Sync\<close> once, with the
  password, the base64-decoded salt, 100000 iterations, a length of 32 bytes and
  \<^verbatim>\<open>'sha256'\<close>, and returns the base64 of what it gets; \<^verbatim>\<open>browserGenerateKey\<close> imports
  the UTF-8 bytes of the password as a raw PBKDF2 key and calls \<^verbatim>\<open>deriveBits\<close> with
  the decoded salt, 100000 iterations, \<^verbatim>\<open>'SHA-256'\<close> and 256 bits. Neither takes these
  numbers from its caller. With Node's \<^verbatim>\<open>crypto\<close> and with Web Crypto both return the
  base64 of PBKDF2-HMAC-SHA256 of the password's UTF-8 bytes and the decoded salt, at
  100000 iterations and 32 bytes: a function of the password and the salt alone.
\<close>

theorem key_derivation_parameters:
  "nativeGenerateKey (Some \<lparr>randomBytes = Some rb, pbkdf2Sync = Some pbkdf2,
        createCipheriv = cc, createDecipheriv = cd\<rparr>) password ivv =
     ([Invoke Pbkdf2Sync],
      case pbkdf2 password (base64_decode ivv) 100000 32 ''sha256'' of
        Inl e \<Rightarrow> Inl e
      | Inr buf \<Rightarrow> Inr (base64_encode buf)) \<and>
   browserGenerateKey (Some \<lparr>subtle = Some \<lparr>importKey = Some ik, deriveBits = Some db,
        decrypt = dc\<rparr>\<rparr>) password ivv =
     (case ik ''raw'' (utf8_encode password) ''PBKDF2'' False [''deriveBits'', ''deriveKey''] of
        Inl e \<Rightarrow> ([Invoke ImportKey], Inl e)
      | Inr importedKey \<Rightarrow>
          ([Invoke ImportKey, Invoke DeriveBits],
           case db \<lparr>dp_name = ''PBKDF2'', dp_salt = base64_decode ivv, dp_iterations = 100000,
                     dp_hash = ''SHA-256''\<rparr> importedKey 256 of
             Inl e \<Rightarrow> Inl e
           | Inr derivedBits \<Rightarrow> Inr (base64_encode derivedBits))) \<and>
   nativeGenerateKey (Some (node_crypto prims)) password ivv =
     ([Invoke Pbkdf2Sync],
      Inr (base64_encode (pbkdf2_hmac prims SHA256 (utf8_encode password) (base64_decode ivv) 100000 32))) \<and>
   browserGenerateKey (Some (web_crypto prims)) password ivv =
     ([Invoke ImportKey, Invoke DeriveBits],
      Inr (base64_encode (pbkdf2_hmac prims SHA256 (utf8_encode password) (base64_decode ivv) 100000 32)))"
  by (simp add: native_key_run browser_key_run)
    (simp add: nativeGenerateKey_def browserGenerateKey_def importKey_guard_def subtle_member_def
      Let_def run_simps bind_def invoke_def ret_def split: sum.splits)

text \<open>
  Claim C5, as the code has it. For a key of 32 bytes, a salt of 16 bytes and a
  ciphertext whose last block fails the padding check under them, both decrypt
  operations fail. \<^verbatim>\<open>nativeDecryptText\<close> fails with Node's \<^verbatim>\<open>bad decrypt\<close>, an error
  of its own: whenever \<^verbatim>\<open>nativeDecryptText\<close> fails with it, the key has 32 bytes, the
  salt 16, and the last block of the ciphertext has failed the padding check. By then
  the callback has been handed, once, what the string decoder returned for the
  deciphered blocks before the last, whatever they are worth; the last block is never
  handed over. \<^verbatim>\<open>browserDecryptText\<close> hands nothing to the callback and fails with Web
  Crypto's \<^verbatim>\<open>OperationError\<close>, which is the error of every failed decryption (the
  counterexample has one without any padding check). The order is the modules' own,
  whatever the provider: \<^verbatim>\<open>nativeDecryptText\<close> hands the result of \<^verbatim>\<open>update\<close> to the
  callback before it calls \<^verbatim>\<open>final\<close>, and an error of \<^verbatim>\<open>final\<close> ends the call as it
  is; \<^verbatim>\<open>browserDecryptText\<close> calls the callback only after \<^verbatim>\<open>decrypt\<close> has returned.
\<close>

theorem padding_failure:
  assumes "length (base64_decode key) = 32" and "length (base64_decode ivv) = 16"
    and "padding_fails prims (base64_decode key) (base64_decode ivv) (base64_decode text)"
  shows "nativeDecryptText (Some (node_crypto prims)) key ivv text =
           ([Invoke CreateDecipheriv, Invoke CipherUpdate,
             Emit (fst (utf8_write utf8_decoder_init (concat (butlast
                     (cbc_decrypt (aes_decrypt_block prims (base64_decode key)) (base64_decode ivv)
                        (blocks (base64_decode text))))))),
             Invoke CipherFinal],
            Inl (Provider BadDecrypt)) \<and>
         browserDecryptText (Some (web_crypto prims)) key ivv text =
           ([Invoke ImportKey, Invoke SubtleDecrypt], Inl (Provider OperationError)) \<and>
         (snd (nativeDecryptText (Some (node_crypto prims)) key' ivv' text') = Inl (Provider BadDecrypt) \<longrightarrow>
            length (base64_decode key') = 32 \<and> length (base64_decode ivv') = 16 \<and>
            padding_fails prims (base64_decode key') (base64_decode ivv') (base64_decode text')) \<and>
         nativeDecryptText (Some \<lparr>randomBytes = rb, pbkdf2Sync = pb, createCipheriv = Some cc,
              createDecipheriv = Some cd\<rparr>) key' ivv' text' =
           (case cd ''aes-256-cbc'' (base64_decode key') (base64_decode ivv') of
              Inl e \<Rightarrow> ([Invoke CreateDecipheriv], Inl e)
            | Inr cipher \<Rightarrow>
                (case update cipher (cipher_state cipher) text' Base64 Utf8 of
                   Inl e \<Rightarrow> ([Invoke CreateDecipheriv, Invoke CipherUpdate], Inl e)
                 | Inr (out, st) \<Rightarrow>
                     (case final cipher st Utf8 of
                        Inl e \<Rightarrow>
                          ([Invoke CreateDecipheriv, Invoke CipherUpdate, Emit out, Invoke CipherFinal],
                           Inl e)
                      | Inr last_out \<Rightarrow>
                          ([Invoke CreateDecipheriv, Invoke CipherUpdate, Emit out, Invoke CipherFinal,
                            Emit last_out], Inr ())))) \<and>
         browserDecryptText (Some \<lparr>subtle = Some \<lparr>importKey = Some ik, deriveBits = db,
              decrypt = Some dc\<rparr>\<rparr>) key' ivv' text' =
           (case ik ''raw'' (base64_decode key') ''AES-CBC'' False [''decrypt''] of
              Inl e \<Rightarrow> ([Invoke ImportKey], Inl e)
            | Inr importedKey \<Rightarrow>
                (case dc \<lparr>cp_name = ''AES-CBC'', cp_iv = base64_decode ivv'\<rparr> importedKey
                        (base64_decode text') of
                   Inl e \<Rightarrow> ([Invoke ImportKey, Invoke SubtleDecrypt], Inl e)
                 | Inr decryptedText \<Rightarrow>
                     ([Invoke ImportKey, Invoke SubtleDecrypt,
                       Emit (text_decoder_decode decryptedText)], Inr ())))"
proof -
  from assms(3) have ne: "base64_decode text \<noteq> []" and m: "length (base64_decode text) mod 16 = 0"
    and u: "pkcs7_unpad (last (cbc_decrypt (aes_decrypt_block prims (base64_decode key))
              (base64_decode ivv) (blocks (base64_decode text)))) = None"
    by (simp_all add: padding_fails_def)
  have kl: "length (base64_decode key) = 16 \<or> length (base64_decode key) = 24 \<or> length (base64_decode key) = 32"
    using assms(1) by simp
  have a: "aes_cbc_decrypt prims (base64_decode key) (base64_decode ivv) (base64_decode text) = None"
    using ne m u by (simp add: aes_cbc_decrypt_def)
  have n: "nativeDecryptText (Some (node_crypto prims)) key ivv text =
           ([Invoke CreateDecipheriv, Invoke CipherUpdate,
             Emit (fst (utf8_write utf8_decoder_init (concat (butlast
                     (cbc_decrypt (aes_decrypt_block prims (base64_decode key)) (base64_decode ivv)
                        (blocks (base64_decode text))))))),
             Invoke CipherFinal],
            Inl (Provider BadDecrypt))"
    by (simp add: native_decrypt_padded[OF assms(1,2) ne m] u)
  have b: "browserDecryptText (Some (web_crypto prims)) key ivv text =
           ([Invoke ImportKey, Invoke SubtleDecrypt], Inl (Provider OperationError))"
    by (simp add: browser_decrypt_run[OF kl assms(2)] a)
  have d: "snd (nativeDecryptText (Some (node_crypto prims)) key' ivv' text') = Inl (Provider BadDecrypt) \<longrightarrow>
            length (base64_decode key') = 32 \<and> length (base64_decode ivv') = 16 \<and>
            padding_fails prims (base64_decode key') (base64_decode ivv') (base64_decode text')"
    using native_bad_decrypt_only by blast
  show ?thesis
    by (intro conjI n b d native_decrypt_any_provider browser_decrypt_any_provider)
qed

theorem padding_failure_witness:
  "length (base64_decode (base64_encode (replicate 32 0))) = 32 \<and>
   length (base64_decode (base64_encode (replicate 16 0))) = 16 \<and>
   padding_fails toy (base64_decode (base64_encode (replicate 32 0)))
      (base64_decode (base64_encode (replicate 16 0))) (base64_decode (base64_encode (replicate 16 0))) \<and>
   snd (nativeDecryptText (Some (node_crypto toy)) (base64_encode (replicate 32 0))
          (base64_encode (replicate 16 0)) (base64_encode (replicate 16 0))) = Inl (Provider BadDecrypt) \<and>
   browserDecryptText (Some (web_crypto toy)) (base64_encode (replicate 32 0))
          (base64_encode (replicate 16 0)) (base64_encode (replicate 16 0)) =
     ([Invoke ImportKey, Invoke SubtleDecrypt], Inl (Provider OperationError))"
proof -
  have k: "length (base64_decode (base64_encode (replicate 32 0))) = 32"
    and i: "length (base64_decode (base64_encode (replicate 16 0))) = 16"
    by (simp_all only: base64_decode_encode length_replicate)
  have "padding_fails toy (replicate 32 0) (replicate 16 0) (replicate 16 0)"
    by code_simp
  then have p: "padding_fails toy (base64_decode (base64_encode (replicate 32 0)))
      (base64_decode (base64_encode (replicate 16 0))) (base64_decode (base64_encode (replicate 16 0)))"
    by (simp only: base64_decode_encode)
  show ?thesis
    using padding_failure[OF k i p, THEN conjunct1]
      padding_failure[OF k i p, THEN conjunct2, THEN conjunct1] k i p by simp
qed

text \<open>
  Two runs on the stand-in cipher. A text of 26 bytes enciphered under one key and
  deciphered under another has its first block handed to the callback, deciphered to
  something else, before the call fails. A ciphertext of 8 bytes, which has no block to
  check the padding of, fails in \<^verbatim>\<open>browserDecryptText\<close> with the very error of a
  failed padding check.
\<close>

theorem padding_failure_counterexample:
  "padding_fails toy (base64_decode (base64_encode (map of_nat [1..<33])))
      (base64_decode (base64_encode (replicate 16 0)))
      (base64_decode (emitted_text (nativeEncryptText (Some (node_crypto toy))
          (base64_encode (replicate 32 0)) (base64_encode (replicate 16 0))
          (ascii ''sixteen byte msg plus more'')))) \<and>
   nativeDecryptText (Some (node_crypto toy)) (base64_encode (map of_nat [1..<33]))
      (base64_encode (replicate 16 0))
      (emitted_text (nativeEncryptText (Some (node_crypto toy))
          (base64_encode (replicate 32 0)) (base64_encode (replicate 16 0))
          (ascii ''sixteen byte msg plus more'')))
     = ([Invoke CreateDecipheriv, Invoke CipherUpdate,
         Emit [99, 102, 118, 121, 105, 110, 100, 41, 106, 126, 114, 96, 36, 110, 113, 102],
         Invoke CipherFinal],
        Inl (Provider BadDecrypt)) \<and>
   [99, 102, 118, 121, 105, 110, 100, 41, 106, 126, 114, 96, 36, 110, 113, 102]
     \<noteq> take 16 (ascii ''sixteen byte msg plus more'') \<and>
   length (base64_decode (ascii ''AAAAAAAAAAA='')) = 8 \<and>
   \<not> padding_fails toy (base64_decode (base64_encode (replicate 32 0)))
      (base64_decode (base64_encode (replicate 16 0))) (base64_decode (ascii ''AAAAAAAAAAA='')) \<and>
   browserDecryptText (Some (web_crypto toy)) (base64_encode (replicate 32 0))
      (base64_encode (replicate 16 0)) (ascii ''AAAAAAAAAAA='')
     = ([Invoke ImportKey, Invoke SubtleDecrypt], Inl (Provider OperationError))"
  by code_simp

text \<open>
  Claim C6, at the inputs where the code departs from it. The guard of
  \<^verbatim>\<open>nativeGenerateKey\<close> tests \<^verbatim>\<open>randomBytes\<close>, which the function does not use, and
  not \<^verbatim>\<open>pbkdf2Sync\<close>, which it calls. With a provider that lacks only \<^verbatim>\<open>pbkdf2Sync\<close>
  the call fails before any provider member is invoked, but with the language's
  \<open>TypeError\<close> for calling a missing member, not with the module's
  \<^verbatim>\<open>is not supported\<close> error; with a provider that has \<^verbatim>\<open>pbkdf2Sync\<close> and lacks
  only \<^verbatim>\<open>randomBytes\<close> it fails with \<^verbatim>\<open>nativeCrypto.randomBytes is not supported\<close>.
  The guard of \<^verbatim>\<open>browserGenerateKey\<close> tests \<^verbatim>\<open>importKey\<close> only: with a provider that
  lacks \<^verbatim>\<open>deriveBits\<close> the key is imported first and the call then fails with a
  \<open>TypeError\<close>.
\<close>

theorem key_derivation_guard:
  "nativeGenerateKey (Some ((node_crypto prims)\<lparr>pbkdf2Sync := None\<rparr>)) password ivv =
     ([], Inl (TypeError_not_a_function ''nativeCrypto.pbkdf2Sync'')) \<and>
   nativeGenerateKey (Some ((node_crypto prims)\<lparr>randomBytes := None\<rparr>)) password ivv =
     ([], Inl (Error ''nativeCrypto.randomBytes is not supported'')) \<and>
   browserGenerateKey (Some \<lparr>subtle = Some \<lparr>importKey = Some web_importKey, deriveBits = None,
        decrypt = Some (web_decrypt prims)\<rparr>\<rparr>) password ivv =
     ([Invoke ImportKey], Inl (TypeError_not_a_function ''browserCrypto.subtle.deriveBits''))"
  by (simp add: nativeGenerateKey_def browserGenerateKey_def importKey_guard_def subtle_member_def
      node_crypto_def web_importKey_def Let_def run_simps)
    (simp add: throw_def)

text \<open>
  Claim C7, at the inputs where the code departs from it. \<^verbatim>\<open>nativeEncryptText\<close> tests
  the member it needs: without \<^verbatim>\<open>createCipheriv\<close> it fails with
  \<^verbatim>\<open>nativeCrypto.createCipheriv is not supported\<close>, nothing invoked and nothing emitted.
  \<^verbatim>\<open>nativeDecryptText\<close> tests \<^verbatim>\<open>createCipheriv\<close> too, and not the
  \<^verbatim>\<open>createDecipheriv\<close> it calls: with a provider that lacks only \<^verbatim>\<open>createDecipheriv\<close>
  it fails with the language's \<open>TypeError\<close> for calling a missing member, and with a
  provider that has \<^verbatim>\<open>createDecipheriv\<close> and lacks only \<^verbatim>\<open>createCipheriv\<close> it fails
  with \<^verbatim>\<open>nativeCrypto.createCipheriv is not supported\<close>.
\<close>

theorem cipher_guard:
  "nativeEncryptText (Some ((node_crypto prims)\<lparr>createCipheriv := None\<rparr>)) key ivv text =
     ([], Inl (Error ''nativeCrypto.createCipheriv is not supported'')) \<and>
   nativeDecryptText (Some ((node_crypto prims)\<lparr>createDecipheriv := None\<rparr>)) key ivv text =
     ([], Inl (TypeError_not_a_function ''nativeCrypto.createDecipheriv'')) \<and>
   nativeDecryptText (Some ((node_crypto prims)\<lparr>createCipheriv := None\<rparr>)) key ivv text =
     ([], Inl (Error ''nativeCrypto.createCipheriv is not supported''))"
  by (simp add: nativeEncryptText_def nativeDecryptText_def node_crypto_def run_simps)
    (simp add: throw_def)




text \<open>
  Claim C9, its first half and the inputs where the code departs from its second.
  Before \<^verbatim>\<open>nativeInit\<close> / \<^verbatim>\<open>browserInit\<close> every operation of either module fails with
  the \<open>TypeError\<close> of reading a member of the undefined handle (\<^verbatim>\<open>randomBytes\<close>,
  \<^verbatim>\<open>createCipheriv\<close>, \<^verbatim>\<open>subtle\<close>), nothing invoked. After \<^verbatim>\<open>nativeInit\<close> with a
  provider that supplies \<^verbatim>\<open>pbkdf2Sync\<close> but not \<^verbatim>\<open>randomBytes\<close>, key derivation and
  fingerprint still reach their \<^verbatim>\<open>is not supported\<close> branch; after \<^verbatim>\<open>nativeInit\<close>
  with a provider that supplies \<^verbatim>\<open>createDecipheriv\<close> but not \<^verbatim>\<open>createCipheriv\<close>, so
  does decrypt.
\<close>

theorem uninitialised_and_guards:
  "nativeGenerateIvv None = ([], Inl (TypeError_undefined ''randomBytes'')) \<and>
   nativeGenerateKey None password ivv = ([], Inl (TypeError_undefined ''randomBytes'')) \<and>
   nativeGenerateHash None password ivv = ([], Inl (TypeError_undefined ''randomBytes'')) \<and>
   nativeEncryptText None key ivv text = ([], Inl (TypeError_undefined ''createCipheriv'')) \<and>
   nativeDecryptText None key ivv text = ([], Inl (TypeError_undefined ''createCipheriv'')) \<and>
   browserGenerateKey None password ivv = ([], Inl (TypeError_undefined ''subtle'')) \<and>
   browserGenerateHash None password ivv = ([], Inl (TypeError_undefined ''subtle'')) \<and>
   browserDecryptText None key ivv text = ([], Inl (TypeError_undefined ''subtle'')) \<and>
   nativeGenerateKey (nativeInit (Some \<lparr>randomBytes = None, pbkdf2Sync = Some (node_pbkdf2Sync prims),
        createCipheriv = None, createDecipheriv = None\<rparr>) None) password ivv =
     ([], Inl (Error ''nativeCrypto.randomBytes is not supported'')) \<and>
   nativeGenerateHash (nativeInit (Some \<lparr>randomBytes = None, pbkdf2Sync = Some (node_pbkdf2Sync prims),
        createCipheriv = None, createDecipheriv = None\<rparr>) None) password ivv =
     ([], Inl (Error ''nativeCrypto.randomBytes is not supported'')) \<and>
   nativeDecryptText (nativeInit (Some \<lparr>randomBytes = None, pbkdf2Sync = None,
        createCipheriv = None, createDecipheriv = Some (node_create prims True)\<rparr>) None) key ivv text =
     ([], Inl (Error ''nativeCrypto.createCipheriv is not supported''))"
  by (simp add: nativeGenerateIvv_def nativeGenerateKey_def nativeGenerateHash_def
      nativeEncryptText_def nativeDecryptText_def browserGenerateKey_def browserGenerateHash_def
      browserDecryptText_def importKey_guard_def nativeInit_def run_simps)
    (simp add: throw_def)

text \<open>
  Claim C10. Whatever the provider, a call of \<^verbatim>\<open>nativeEncryptText\<close> or
  \<^verbatim>\<open>nativeDecryptText\<close> that succeeds has created one cipher object, called its
  \<^verbatim>\<open>update\<close> on the whole input and handed the result to the callback, then called
  its \<^verbatim>\<open>final\<close> and handed that result to the callback: two invocations, in this
  order, and nothing else. A call of \<^verbatim>\<open>browserDecryptText\<close> that succeeds has imported
  the key, decrypted the whole input and handed the decoded plaintext to the callback:
  one invocation.
\<close>

theorem sink_invocations:
  "(snd (nativeEncryptText nativeCrypto key ivv text) = Inr () \<longrightarrow>
      (\<exists>p create cipher out st last_out.
         nativeCrypto = Some p \<and> createCipheriv p = Some create \<and>
         create ''aes-256-cbc'' (base64_decode key) (base64_decode ivv) = Inr cipher \<and>
         update cipher (cipher_state cipher) text Utf8 Base64 = Inr (out, st) \<and>
         final cipher st Base64 = Inr last_out \<and>
         fst (nativeEncryptText nativeCrypto key ivv text) =
           [Invoke CreateCipheriv, Invoke CipherUpdate, Emit out, Invoke CipherFinal, Emit last_out])) \<and>
   (snd (nativeDecryptText nativeCrypto key ivv text) = Inr () \<longrightarrow>
      (\<exists>p create cipher out st last_out.
         nativeCrypto = Some p \<and> createDecipheriv p = Some create \<and>
         create ''aes-256-cbc'' (base64_decode key) (base64_decode ivv) = Inr cipher \<and>
         update cipher (cipher_state cipher) text Base64 Utf8 = Inr (out, st) \<and>
         final cipher st Utf8 = Inr last_out \<and>
         fst (nativeDecryptText nativeCrypto key ivv text) =
           [Invoke CreateDecipheriv, Invoke CipherUpdate, Emit out, Invoke CipherFinal, Emit last_out])) \<and>
   (snd (browserDecryptText browserCrypto key ivv text) = Inr () \<longrightarrow>
      (\<exists>p sc import dec importedKey decryptedText.
         browserCrypto = Some p \<and> subtle p = Some sc \<and> importKey sc = Some import \<and>
         decrypt sc = Some dec \<and>
         import ''raw'' (base64_decode key) ''AES-CBC'' False [''decrypt''] = Inr importedKey \<and>
         dec \<lparr>cp_name = ''AES-CBC'', cp_iv = base64_decode ivv\<rparr> importedKey (base64_decode text)
           = Inr decryptedText \<and>
         fst (browserDecryptText browserCrypto key ivv text) =
           [Invoke ImportKey, Invoke SubtleDecrypt, Emit (text_decoder_decode decryptedText)]))"
proof (intro conjI impI)
  assume "snd (nativeEncryptText nativeCrypto key ivv text) = Inr ()"
  then show "\<exists>p create cipher out st last_out.
         nativeCrypto = Some p \<and> createCipheriv p = Some create \<and>
         create ''aes-256-cbc'' (base64_decode key) (base64_decode ivv) = Inr cipher \<and>
         update cipher (cipher_state cipher) text Utf8 Base64 = Inr (out, st) \<and>
         final cipher st Base64 = Inr last_out \<and>
         fst (nativeEncryptText nativeCrypto key ivv text) =
           [Invoke CreateCipheriv, Invoke CipherUpdate, Emit out, Invoke CipherFinal, Emit last_out]"
    by (auto simp: nativeEncryptText_def bind_def member_def call_def invoke_def emit_def ret_def
        throw_def split: option.splits sum.splits prod.splits)
next
  assume "snd (nativeDecryptText nativeCrypto key ivv text) = Inr ()"
  then show "\<exists>p create cipher out st last_out.
         nativeCrypto = Some p \<and> createDecipheriv p = Some create \<and>
         create ''aes-256-cbc'' (base64_decode key) (base64_decode ivv) = Inr cipher \<and>
         update cipher (cipher_state cipher) text Base64 Utf8 = Inr (out, st) \<and>
         final cipher st Utf8 = Inr last_out \<and>
         fst (nativeDecryptText nativeCrypto key ivv text) =
           [Invoke CreateDecipheriv, Invoke CipherUpdate, Emit out, Invoke CipherFinal, Emit last_out]"
    by (auto simp: nativeDecryptText_def bind_def member_def call_def invoke_def emit_def ret_def
        throw_def split: option.splits sum.splits prod.splits)
next
  assume "snd (browserDecryptText browserCrypto key ivv text) = Inr ()"
  then show "\<exists>p sc import dec importedKey decryptedText.
         browserCrypto = Some p \<and> subtle p = Some sc \<and> importKey sc = Some import \<and>
         decrypt sc = Some dec \<and>
         import ''raw'' (base64_decode key) ''AES-CBC'' False [''decrypt''] = Inr importedKey \<and>
         dec \<lparr>cp_name = ''AES-CBC'', cp_iv = base64_decode ivv\<rparr> importedKey (base64_decode text)
           = Inr decryptedText \<and>
         fst (browserDecryptText browserCrypto key ivv text) =
           [Invoke ImportKey, Invoke SubtleDecrypt, Emit (text_decoder_decode decryptedText)]"
    by (auto simp: browserDecryptText_def importKey_guard_def subtle_member_def bind_def member_def
        call_def invoke_def emit_def ret_def throw_def split: option.splits sum.splits prod.splits)
qed

theorem sink_invocations_witness:
  "snd (nativeEncryptText (Some (node_crypto toy)) (base64_encode (replicate 32 1))
         (base64_encode (replicate 16 0)) (ascii ''sixteen byte msg'')) = Inr () \<and>
   length (emitted (fst (nativeEncryptText (Some (node_crypto toy)) (base64_encode (replicate 32 1))
         (base64_encode (replicate 16 0)) (ascii ''sixteen byte msg'')))) = 2 \<and>
   snd (nativeDecryptText (Some (node_crypto toy)) (base64_encode (replicate 32 1))
         (base64_encode (replicate 16 0))
         (emitted_text (nativeEncryptText (Some (node_crypto toy)) (base64_encode (replicate 32 1))
            (base64_encode (replicate 16 0)) (ascii ''sixteen byte msg'')))) = Inr () \<and>
   length (emitted (fst (nativeDecryptText (Some (node_crypto toy)) (base64_encode (replicate 32 1))
         (base64_encode (replicate 16 0))
         (emitted_text (nativeEncryptText (Some (node_crypto toy)) (base64_encode (replicate 32 1))
            (base64_encode (replicate 16 0)) (ascii ''sixteen byte msg'')))))) = 2 \<and>
   snd (browserDecryptText (Some (web_crypto toy)) (base64_encode (replicate 32 1))
         (base64_encode (replicate 16 0))
         (emitted_text (nativeEncryptText (Some (node_crypto toy)) (base64_encode (replicate 32 1))
            (base64_encode (replicate 16 0)) (ascii ''sixteen byte msg'')))) = Inr () \<and>
   length (emitted (fst (browserDecryptText (Some (web_crypto toy)) (base64_encode (replicate 32 1))
         (base64_encode (replicate 16 0))
         (emitted_text (nativeEncryptText (Some (node_crypto toy)) (base64_encode (replicate 32 1))
            (base64_encode (replicate 16 0)) (ascii ''sixteen byte msg'')))))) = 1"
proof -
  let ?N = "Some (node_crypto toy)" and ?W = "Some (web_crypto toy)"
  let ?K = "base64_encode (replicate 32 1)" and ?S = "base64_encode (replicate 16 0)"
  let ?T = "ascii ''sixteen byte msg''"
  let ?C = "emitted_text (nativeEncryptText ?N ?K ?S ?T)"
  have k: "length (base64_decode ?K) = 32" and i: "length (base64_decode ?S) = 16"
    by (simp_all only: base64_decode_encode length_replicate)
  have e: "snd (nativeEncryptText ?N ?K ?S ?T) = Inr ()"
    by (rule native_decrypt_of_encrypt(1)[OF toy_block_cipher k i])
  have d: "snd (nativeDecryptText ?N ?K ?S ?C) = Inr ()"
    by (rule native_decrypt_of_encrypt(2)[OF toy_block_cipher k i])
  have b: "snd (browserDecryptText ?W ?K ?S ?C) = Inr ()"
    by (simp add: browser_decrypt_of_native_encrypt[OF toy_block_cipher k i])
  from sink_invocations[of ?N ?K ?S ?T ?W] e
  have 1: "length (emitted (fst (nativeEncryptText ?N ?K ?S ?T))) = 2" by auto
  from sink_invocations[of ?N ?K ?S ?C ?W] d b
  have 2: "length (emitted (fst (nativeDecryptText ?N ?K ?S ?C))) = 2"
    and 3: "length (emitted (fst (browserDecryptText ?W ?K ?S ?C))) = 1" by auto
  from e d b 1 2 3 show ?thesis by (simp only: simp_thms)
qed

end
